theory Spec2Isabelle
  imports Main "HOL-Library.Sublist" "HOL-Library.Word"
begin

section \<open>Strings and cells of the sheet viewer\<close>

text \<open>
  The viewer component \<open>SheetDataViewer\<close> (in \<open>src/components/AreaPage.tsx\<close>) holds a grid
  \<open>string[][]\<close>. A JavaScript string is a sequence of 16-bit code units; \<open>str\<close> turns a
  literal of ASCII characters into one. Reading a row beyond its end gives \<open>undefined\<close>, and
  the column reorder can store such a value back into a row, so a cell is an optional
  string: \<open>None\<close> is \<open>undefined\<close>.
\<close>

type_synonym codeUnit = "16 word"
type_synonym jsString = "codeUnit list"
type_synonym cell = "jsString option"
type_synonym row = "cell list"
type_synonym grid = "row list"

datatype error = TypeError

definition str :: "string \<Rightarrow> jsString" where
  "str s = map of_char s"

text \<open>
  The white space of ECMAScript, which \<open>trim\<close> and \<open>parseInt\<close> strip: TAB, LF, VT, FF, CR,
  SPACE, NO-BREAK SPACE, the space separators U+1680, U+2000 to U+200A, U+202F, U+205F and
  U+3000, the line and paragraph separators U+2028 and U+2029, and U+FEFF.
\<close>

definition isWhiteSpace :: "codeUnit \<Rightarrow> bool" where
  "isWhiteSpace c =
     (c \<in> {0x0009, 0x000A, 0x000B, 0x000C, 0x000D, 0x0020, 0x00A0, 0x1680,
            0x2028, 0x2029, 0x202F, 0x205F, 0x3000, 0xFEFF}
      \<or> (0x2000 \<le> c \<and> c \<le> 0x200A))"

definition trim :: "jsString \<Rightarrow> jsString" where
  "trim s = rev (dropWhile isWhiteSpace (rev (dropWhile isWhiteSpace s)))"

definition isAscii :: "codeUnit \<Rightarrow> bool" where
  "isAscii c = (c < 0x80)"

definition lowerAscii :: "codeUnit \<Rightarrow> codeUnit" where
  "lowerAscii c = (if 0x41 \<le> c \<and> c \<le> 0x5A then c + 0x20 else c)"

text \<open>
  \<open>s.toLowerCase()\<close>. On a string of ASCII code units it maps \<open>A\<close> to \<open>Z\<close> onto \<open>a\<close> to \<open>z\<close>
  and leaves the rest. On any other string the result comes from the Unicode tables of the
  engine, which are not modelled: they are the parameter \<open>u\<close>, an arbitrary function, of
  every definition that lower-cases. Lower-casing maps each code point to at least one
  code point, so it never gives the empty string for a string that is not empty; this is all
  that is kept of \<open>u\<close> (a result \<open>[]\<close> is not taken).
\<close>

type_synonym lowering = "jsString \<Rightarrow> jsString"

definition toLowerCase :: "lowering \<Rightarrow> jsString \<Rightarrow> jsString" where
  "toLowerCase u s =
     (if list_all isAscii s then map lowerAscii s
      else if u s = [] then s else u s)"

text \<open>
  A lowering for examples: it folds the ASCII letters of any string and leaves all other
  code units. On the strings of ASCII code units of the examples the choice plays no part.
\<close>

definition asciiFold :: lowering where
  "asciiFold s = map lowerAscii s"

text \<open>\<open>s.includes(t)\<close>: \<open>t\<close> occurs in \<open>s\<close> as a contiguous run of code units.\<close>

definition includesStr :: "jsString \<Rightarrow> jsString \<Rightarrow> bool" where
  "includesStr s t = sublist t s"

text \<open>\<open>row[i]\<close>: the cell at index \<open>i\<close>, \<open>undefined\<close> beyond the end of the row.\<close>

definition cellAt :: "row \<Rightarrow> nat \<Rightarrow> cell" where
  "cellAt r i = (if i < length r then r ! i else None)"

text \<open>
  \<open>firstHeaderRow.findIndex(header => header.toLowerCase().trim() === label)\<close>.
  The index \<open>-1\<close> of the source is \<open>None\<close>. Calling \<open>toLowerCase\<close> on \<open>undefined\<close> throws a
  \<open>TypeError\<close>, which happens when an undefined cell is met before a match.
\<close>

fun findIndex :: "lowering \<Rightarrow> jsString \<Rightarrow> row \<Rightarrow> error + nat option" where
  "findIndex u label [] = Inr None"
| "findIndex u label (None # hs) = Inl TypeError"
| "findIndex u label (Some h # hs) =
     (if trim (toLowerCase u h) = label then Inr (Some 0)
      else (case findIndex u label hs of
              Inl e \<Rightarrow> Inl e
            | Inr None \<Rightarrow> Inr None
            | Inr (Some i) \<Rightarrow> Inr (Some (Suc i))))"

section \<open>Column reorder (\<open>reorderedData\<close>)\<close>

text \<open>\<open>row.filter((_, index) => index !== c)\<close>\<close>

definition filterIndexNe :: "nat \<Rightarrow> 'a list \<Rightarrow> 'a list" where
  "filterIndexNe c r = map snd (filter (\<lambda>p. fst p \<noteq> c) (enumerate 0 r))"

text \<open>\<open>xs.splice(start, 0, v)\<close>: insert \<open>v\<close> at \<open>start\<close>, at the end when \<open>start\<close> is beyond it.\<close>

definition splice0 :: "'a list \<Rightarrow> nat \<Rightarrow> 'a \<Rightarrow> 'a list" where
  "splice0 xs start v = take start xs @ v # drop start xs"

definition reorderRow :: "nat \<Rightarrow> nat \<Rightarrow> row \<Rightarrow> row" where
  "reorderRow originalAreaIndex originalCabinetIndex r =
     (let cabinetValue = cellAt r originalCabinetIndex;
          rowWithoutCabinet = filterIndexNe originalCabinetIndex r;
          newAreaIndex = (if originalCabinetIndex < originalAreaIndex
                          then originalAreaIndex - 1 else originalAreaIndex)
      in splice0 rowWithoutCabinet (newAreaIndex + 1) cabinetValue)"

text \<open>
  The body of \<open>reorderedData\<close> for the equipment view and a non-empty grid; the specification
  calls it \<open>reorder\<close>.
\<close>

definition reorder :: "lowering \<Rightarrow> grid \<Rightarrow> error + grid" where
  "reorder u d =
     (case findIndex u (str ''area'') (hd d) of
        Inl e \<Rightarrow> Inl e
      | Inr originalAreaIndex \<Rightarrow>
          (case findIndex u (str ''cabinet'') (hd d) of
             Inl e \<Rightarrow> Inl e
           | Inr originalCabinetIndex \<Rightarrow>
               (case (originalAreaIndex, originalCabinetIndex) of
                  (Some a, Some c) \<Rightarrow>
                    if c = a + 1 then Inr d else Inr (map (reorderRow a c) d)
                | _ \<Rightarrow> Inr d)))"

text \<open>\<open>data\<close> is \<open>null\<close> until the first response has arrived.\<close>

definition reorderedData :: "lowering \<Rightarrow> bool \<Rightarrow> grid option \<Rightarrow> error + grid option" where
  "reorderedData u isEquipmentView data =
     (case data of
        None \<Rightarrow> Inr None
      | Some d \<Rightarrow>
          if \<not> isEquipmentView \<or> d = [] then Inr (Some d)
          else (case reorder u d of Inl e \<Rightarrow> Inl e | Inr d' \<Rightarrow> Inr (Some d')))"

section \<open>Dataset kinds\<close>

datatype dataType = Stock | Stock_abb | Stock_supcon | Equipment

fun dataTypeName :: "dataType \<Rightarrow> jsString" where
  "dataTypeName Stock = str ''stock''"
| "dataTypeName Stock_abb = str ''stock_abb''"
| "dataTypeName Stock_supcon = str ''stock_supcon''"
| "dataTypeName Equipment = str ''equipment''"

definition isEquipmentView :: "dataType \<Rightarrow> bool" where
  "isEquipmentView dt = (dataTypeName dt = str ''equipment'')"

definition headerRowCount :: "dataType \<Rightarrow> nat" where
  "headerRowCount dt = (if includesStr (dataTypeName dt) (str ''stock'') then 1 else 4)"

definition isFilterableView :: "dataType \<Rightarrow> bool" where
  "isFilterableView dt =
     (includesStr (dataTypeName dt) (str ''stock'') \<or> dataTypeName dt = str ''equipment'')"

section \<open>Facet option lists (\<open>types\<close>, \<open>areas\<close>, \<open>cabinets\<close>)\<close>

text \<open>\<open>.filter(Boolean)\<close> keeps the truthy cells: the strings that are not empty.\<close>

fun filterBoolean :: "cell list \<Rightarrow> jsString list" where
  "filterBoolean [] = []"
| "filterBoolean (None # cs) = filterBoolean cs"
| "filterBoolean (Some s # cs) = (if s = [] then filterBoolean cs else s # filterBoolean cs)"

text \<open>
  \<open>[...new Set(xs)]\<close>: a \<open>Set\<close> keeps its elements in the order of their first insertion.
\<close>

fun setAdd :: "'a list \<Rightarrow> 'a list \<Rightarrow> 'a list" where
  "setAdd acc [] = acc"
| "setAdd acc (x # xs) = setAdd (if x \<in> set acc then acc else acc @ [x]) xs"

definition uniqueOf :: "'a list \<Rightarrow> 'a list" where
  "uniqueOf xs = setAdd [] xs"

text \<open>Each of the three memos returns its option list together with the column index.\<close>

definition types ::
  "lowering \<Rightarrow> dataType \<Rightarrow> grid option \<Rightarrow> error + (jsString list \<times> nat option)" where
  "types u dt reordered =
     (case reordered of
        None \<Rightarrow> Inr ([], None)
      | Some rd \<Rightarrow>
          if \<not> isFilterableView dt \<or> length rd < headerRowCount dt + 1 then Inr ([], None)
          else (case findIndex u (str ''type'') (hd rd) of
                  Inl e \<Rightarrow> Inl e
                | Inr None \<Rightarrow> Inr ([], None)
                | Inr (Some typeIndex) \<Rightarrow>
                    (let uniqueTypes = uniqueOf (filterBoolean
                           (map (\<lambda>r. cellAt r typeIndex) (drop (headerRowCount dt) rd)))
                     in Inr (str ''All'' # uniqueTypes, Some typeIndex))))"

definition areas ::
  "lowering \<Rightarrow> dataType \<Rightarrow> grid option \<Rightarrow> error + (jsString list \<times> nat option)" where
  "areas u dt reordered =
     (case reordered of
        None \<Rightarrow> Inr ([], None)
      | Some rd \<Rightarrow>
          if length rd < headerRowCount dt + 1 then Inr ([], None)
          else (case findIndex u (str ''area'') (hd rd) of
                  Inl e \<Rightarrow> Inl e
                | Inr None \<Rightarrow> Inr ([], None)
                | Inr (Some areaIndex) \<Rightarrow>
                    (let uniqueAreas = uniqueOf (filterBoolean
                           (map (\<lambda>r. cellAt r areaIndex) (drop (headerRowCount dt) rd)))
                     in Inr (str ''All'' # uniqueAreas, Some areaIndex))))"

definition cabinets ::
  "lowering \<Rightarrow> dataType \<Rightarrow> grid option \<Rightarrow> jsString \<Rightarrow> nat option \<Rightarrow>
   error + (jsString list \<times> nat option)" where
  "cabinets u dt reordered selectedArea areaColumnIndex =
     (case reordered of
        None \<Rightarrow> Inr ([], None)
      | Some rd \<Rightarrow>
          if \<not> isEquipmentView dt \<or> length rd < headerRowCount dt + 1 then Inr ([], None)
          else (case findIndex u (str ''cabinet'') (hd rd) of
                  Inl e \<Rightarrow> Inl e
                | Inr cabinetColumn \<Rightarrow>
                    (case (cabinetColumn, areaColumnIndex) of
                       (Some cabinetIndex, Some areaIndex) \<Rightarrow>
                         if selectedArea = str ''All'' then Inr ([], cabinetColumn)
                         else
                           (let uniqueCabinetsInArea = uniqueOf (filterBoolean
                                  (map (\<lambda>r. cellAt r cabinetIndex)
                                     (filter (\<lambda>r. cellAt r areaIndex = Some selectedArea)
                                        (drop (headerRowCount dt) rd))))
                            in Inr (if length uniqueCabinetsInArea > 0
                                    then str ''All'' # uniqueCabinetsInArea else [],
                                    cabinetColumn))
                     | _ \<Rightarrow> Inr ([], cabinetColumn))))"

section \<open>Row filtering (\<open>filteredBodyRows\<close>)\<close>

definition typePass :: "dataType \<Rightarrow> jsString \<Rightarrow> nat option \<Rightarrow> row list \<Rightarrow> row list" where
  "typePass dt selectedType typeColumnIndex rows =
     (case typeColumnIndex of
        Some i \<Rightarrow>
          if isFilterableView dt \<and> selectedType \<noteq> str ''All''
          then filter (\<lambda>r. cellAt r i = Some selectedType) rows else rows
      | None \<Rightarrow> rows)"

definition areaPass :: "jsString \<Rightarrow> nat option \<Rightarrow> row list \<Rightarrow> row list" where
  "areaPass selectedArea areaColumnIndex rows =
     (case areaColumnIndex of
        Some i \<Rightarrow>
          if selectedArea \<noteq> str ''All''
          then filter (\<lambda>r. cellAt r i = Some selectedArea) rows else rows
      | None \<Rightarrow> rows)"

definition cabinetPass :: "dataType \<Rightarrow> jsString \<Rightarrow> nat option \<Rightarrow> row list \<Rightarrow> row list" where
  "cabinetPass dt selectedCabinet cabinetColumnIndex rows =
     (case cabinetColumnIndex of
        Some i \<Rightarrow>
          if isEquipmentView dt \<and> selectedCabinet \<noteq> str ''All''
          then filter (\<lambda>r. cellAt r i = Some selectedCabinet) rows else rows
      | None \<Rightarrow> rows)"

text \<open>\<open>cell && String(cell).toLowerCase().includes(lowerTerm)\<close>\<close>

definition cellIncludes :: "lowering \<Rightarrow> jsString \<Rightarrow> cell \<Rightarrow> bool" where
  "cellIncludes u lowerTerm c =
     (case c of
        None \<Rightarrow> False
      | Some s \<Rightarrow> s \<noteq> [] \<and> includesStr (toLowerCase u s) lowerTerm)"

definition searchPass :: "lowering \<Rightarrow> dataType \<Rightarrow> jsString \<Rightarrow> row list \<Rightarrow> row list" where
  "searchPass u dt searchTerm rows =
     (if searchTerm \<noteq> [] then
        (let lowerTerm = toLowerCase u searchTerm
         in if isEquipmentView dt then rows
            else filter (\<lambda>r. list_ex (cellIncludes u lowerTerm) r) rows)
      else rows)"

text \<open>\<open>cell && cell.trim() !== ''\<close>\<close>

definition cellHasValue :: "cell \<Rightarrow> bool" where
  "cellHasValue c = (case c of None \<Rightarrow> False | Some s \<Rightarrow> s \<noteq> [] \<and> trim s \<noteq> [])"

definition nonEmptyPass :: "dataType \<Rightarrow> row list \<Rightarrow> row list" where
  "nonEmptyPass dt rows =
     (if isEquipmentView dt then filter (\<lambda>r. list_ex cellHasValue r) rows else rows)"

definition filteredBodyRows ::
  "lowering \<Rightarrow> dataType \<Rightarrow> grid option \<Rightarrow> jsString \<Rightarrow> jsString \<Rightarrow> jsString \<Rightarrow> jsString \<Rightarrow>
   nat option \<Rightarrow> nat option \<Rightarrow> nat option \<Rightarrow> row list" where
  "filteredBodyRows u dt reordered selectedType selectedArea selectedCabinet searchTerm
     typeColumnIndex areaColumnIndex cabinetColumnIndex =
     (let rows = (case reordered of None \<Rightarrow> [] | Some rd \<Rightarrow> drop (headerRowCount dt) rd);
          rows = typePass dt selectedType typeColumnIndex rows;
          rows = areaPass selectedArea areaColumnIndex rows;
          rows = cabinetPass dt selectedCabinet cabinetColumnIndex rows;
          rows = searchPass u dt searchTerm rows
      in nonEmptyPass dt rows)"

section \<open>Column visibility (\<open>visibleEquipmentColumns\<close>)\<close>

definition isDigit :: "codeUnit \<Rightarrow> bool" where
  "isDigit c = (0x30 \<le> c \<and> c \<le> 0x39)"

definition digitsValue :: "jsString \<Rightarrow> int" where
  "digitsValue ds = foldl (\<lambda>n c. 10 * n + (uint c - 48)) 0 ds"

text \<open>
  \<open>parseInt(cellValue, 10)\<close>: leading white space is skipped, one sign is read, then the
  longest run of the digits \<open>0\<close> to \<open>9\<close>; \<open>NaN\<close> (here \<open>None\<close>) when there is no digit, and
  for \<open>undefined\<close>. Whatever follows the digits is ignored. The value is an unbounded
  integer here; the floating point number of the source has the same sign.
\<close>

definition parseInt10 :: "cell \<Rightarrow> int option" where
  "parseInt10 c =
     (case c of
        None \<Rightarrow> None
      | Some s \<Rightarrow>
          (let t = dropWhile isWhiteSpace s;
               negative = (t \<noteq> [] \<and> hd t = 0x2D);
               rest = (if t \<noteq> [] \<and> (hd t = 0x2D \<or> hd t = 0x2B) then tl t else t);
               ds = takeWhile isDigit rest
           in if ds = [] then None
              else Some (if negative then - digitsValue ds else digitsValue ds)))"

text \<open>\<open>!isNaN(numericValue) && numericValue > 0\<close> for the cell of a row in column \<open>colIndex\<close>.\<close>

definition positiveAt :: "nat \<Rightarrow> row \<Rightarrow> bool" where
  "positiveAt colIndex r =
     (case parseInt10 (cellAt r colIndex) of None \<Rightarrow> False | Some numericValue \<Rightarrow> numericValue > 0)"

text \<open>The \<open>for\<close> loop over the columns from 3 on, with the set it fills as accumulator.\<close>

function visibleLoop ::
  "lowering \<Rightarrow> nat \<Rightarrow> nat \<Rightarrow> row \<Rightarrow> row list \<Rightarrow> jsString \<Rightarrow> nat set \<Rightarrow> nat set" where
  "visibleLoop u colIndex totalColumns firstHeaderRow bodyRows searchTerm visibleIndices =
     (if colIndex < totalColumns then
        visibleLoop u (Suc colIndex) totalColumns firstHeaderRow bodyRows searchTerm
          (if searchTerm \<noteq> [] then
             (if cellIncludes u (toLowerCase u searchTerm) (cellAt firstHeaderRow colIndex)
              then insert colIndex visibleIndices else visibleIndices)
           else
             (if list_ex (positiveAt colIndex) bodyRows
              then insert colIndex visibleIndices else visibleIndices))
      else visibleIndices)"
  by pat_completeness auto
termination
  by (relation "measure (\<lambda>(u, colIndex, totalColumns, _). totalColumns - colIndex)") auto

text \<open>The result \<open>null\<close> (here \<open>None\<close>) makes the renderer show every column.\<close>

definition visibleEquipmentColumns ::
  "lowering \<Rightarrow> dataType \<Rightarrow> row list \<Rightarrow> grid option \<Rightarrow> jsString \<Rightarrow> nat set option" where
  "visibleEquipmentColumns u dt bodyRows reordered searchTerm =
     (case reordered of
        None \<Rightarrow> None
      | Some rd \<Rightarrow>
          if \<not> isEquipmentView dt \<or> length bodyRows = 0 then None
          else
            (let firstHeaderRow = (case rd of [] \<Rightarrow> [] | r # _ \<Rightarrow> r);
                 totalColumns = length firstHeaderRow
             in Some (visibleLoop u 3 totalColumns firstHeaderRow bodyRows searchTerm
                        (insert 2 (insert 1 (insert 0 {}))))))"

section \<open>The whole recomputation\<close>

record derivedView =
  viewReordered :: "grid option"
  viewTypes :: "jsString list"
  viewTypeIndex :: "nat option"
  viewAreas :: "jsString list"
  viewAreaIndex :: "nat option"
  viewCabinets :: "jsString list"
  viewCabinetIndex :: "nat option"
  viewRows :: "row list"
  viewColumns :: "nat set option"

text \<open>
  One render of the component: the memos in the order of the source, each reading the
  results of the earlier ones (\<open>viewTypeIndex\<close> is \<open>typeColumnIndex\<close>, and so on). An
  exception thrown by one of them ends the render.
\<close>

definition recompute ::
  "lowering \<Rightarrow> dataType \<Rightarrow> grid option \<Rightarrow> jsString \<Rightarrow> jsString \<Rightarrow> jsString \<Rightarrow> jsString \<Rightarrow>
   error + derivedView" where
  "recompute u dt d selectedType selectedArea selectedCabinet searchTerm =
     (case reorderedData u (isEquipmentView dt) d of
        Inl e \<Rightarrow> Inl e
      | Inr reordered \<Rightarrow>
          (case types u dt reordered of
             Inl e \<Rightarrow> Inl e
           | Inr (typeOptions, typeColumnIndex) \<Rightarrow>
               (case areas u dt reordered of
                  Inl e \<Rightarrow> Inl e
                | Inr (areaOptions, areaColumnIndex) \<Rightarrow>
                    (case cabinets u dt reordered selectedArea areaColumnIndex of
                       Inl e \<Rightarrow> Inl e
                     | Inr (cabinetOptions, cabinetColumnIndex) \<Rightarrow>
                         (let bodyRows = filteredBodyRows u dt reordered selectedType
                                selectedArea selectedCabinet searchTerm typeColumnIndex
                                areaColumnIndex cabinetColumnIndex
                          in Inr \<lparr> viewReordered = reordered,
                                   viewTypes = typeOptions,
                                   viewTypeIndex = typeColumnIndex,
                                   viewAreas = areaOptions,
                                   viewAreaIndex = areaColumnIndex,
                                   viewCabinets = cabinetOptions,
                                   viewCabinetIndex = cabinetColumnIndex,
                                   viewRows = bodyRows,
                                   viewColumns = visibleEquipmentColumns u dt bodyRows
                                                   reordered searchTerm \<rparr>)))))"

section \<open>Component state, fetching and effects\<close>

datatype area = PULP2 | NPP11 | EWTP

text \<open>
  What a request can come back with: \<open>fetch\<close> rejects, or a response arrives with its \<open>ok\<close>
  flag, its status and a body. \<open>res.json()\<close> rejects on a body that is not JSON; otherwise
  the body gives \<open>result.success\<close> (as a truth value), \<open>result.data\<close> when it is an array,
  and \<open>result.error\<close> (the empty string when there is none).
\<close>

datatype jsonBody = Unparsable jsString | Parsed bool "grid option" jsString

datatype response = Rejected jsString | Http bool nat jsonBody

function showNat :: "nat \<Rightarrow> jsString" where
  "showNat n =
     (if n < 10 then [of_nat (48 + n)]
      else showNat (n div 10) @ [of_nat (48 + n mod 10)])"
  by pat_completeness auto
termination
  by (relation "measure (\<lambda>n. n)") auto

record viewer =
  data :: "grid option"
  loading :: bool
  error :: "jsString option"
  selectedType :: jsString
  selectedArea :: jsString
  selectedCabinet :: jsString
  searchTerm :: jsString
  area :: area
  dataType :: dataType
  liveEffect :: "nat option"
  effectCount :: nat

text \<open>
  \<open>area\<close> and \<open>dataType\<close> are the props. Every run of the effect on \<open>[area, dataType]\<close> has
  its own variable \<open>isMounted\<close>; the runs are numbered, \<open>liveEffect\<close> is the run whose
  \<open>isMounted\<close> is still true (none after the unmount), and \<open>effectCount\<close> the number of runs
  so far. A request carries the number of the run that sent it and its \<open>isInitialLoad\<close>.
\<close>

text \<open>The first \<open>then\<close>: the thrown message, or the parsed body.\<close>

definition firstThen :: "response \<Rightarrow> jsString + (bool \<times> grid option \<times> jsString)" where
  "firstThen resp =
     (case resp of
        Rejected msg \<Rightarrow> Inl msg
      | Http ok status body \<Rightarrow>
          if \<not> ok then Inl (str ''HTTP error! status: '' @ showNat status)
          else (case body of
                  Unparsable msg \<Rightarrow> Inl msg
                | Parsed success d err \<Rightarrow> Inr (success, d, err)))"

text \<open>The second \<open>then\<close>: the new state and the message it throws, if any.\<close>

definition secondThen ::
  "bool \<Rightarrow> bool \<Rightarrow> (bool \<times> grid option \<times> jsString) \<Rightarrow> viewer \<Rightarrow>
   viewer \<times> jsString option" where
  "secondThen isMounted isInitialLoad result v =
     (case result of (success, d, err) \<Rightarrow>
        if \<not> isMounted then (v, None)
        else if success \<and> d \<noteq> None then
          (let v1 = v\<lparr>data := d\<rparr>
           in (if isInitialLoad then v1\<lparr>error := None\<rparr> else v1, None))
        else (v, Some (if err \<noteq> [] then err else str ''Invalid data format received.'')))"

definition catchHandler :: "bool \<Rightarrow> bool \<Rightarrow> jsString \<Rightarrow> viewer \<Rightarrow> viewer" where
  "catchHandler isMounted isInitialLoad msg v =
     (if \<not> isMounted then v
      else if isInitialLoad then v\<lparr>error := Some msg\<rparr> else v)"

definition finallyHandler :: "bool \<Rightarrow> bool \<Rightarrow> viewer \<Rightarrow> viewer" where
  "finallyHandler isMounted isInitialLoad v =
     (if isMounted \<and> isInitialLoad then v\<lparr>loading := False\<rparr> else v)"

text \<open>The promise chain of \<open>fetchData\<close> once the request has come back.\<close>

definition settle :: "bool \<Rightarrow> bool \<Rightarrow> response \<Rightarrow> viewer \<Rightarrow> viewer" where
  "settle isMounted isInitialLoad resp v =
     finallyHandler isMounted isInitialLoad
       (case firstThen resp of
          Inl msg \<Rightarrow> catchHandler isMounted isInitialLoad msg v
        | Inr result \<Rightarrow>
            (case secondThen isMounted isInitialLoad result v of
               (v1, None) \<Rightarrow> v1
             | (v1, Some msg) \<Rightarrow> catchHandler isMounted isInitialLoad msg v1))"

datatype event =
    SetSelectedType jsString
  | SetSelectedArea jsString
  | SetSelectedCabinet jsString
  | SetSearchTerm jsString
  | Props area dataType
  | Tick
  | Unmount
  | Settle nat bool response

text \<open>
  The state setters and callbacks. The interval callback \<open>fetchData(false)\<close> sends a request
  and sets nothing. The cleanup of the unmount clears \<open>isMounted\<close>.
\<close>

fun handle :: "event \<Rightarrow> viewer \<Rightarrow> viewer" where
  "handle (SetSelectedType t) v = v\<lparr>selectedType := t\<rparr>"
| "handle (SetSelectedArea a) v = v\<lparr>selectedArea := a\<rparr>"
| "handle (SetSelectedCabinet c) v = v\<lparr>selectedCabinet := c\<rparr>"
| "handle (SetSearchTerm s) v = v\<lparr>searchTerm := s\<rparr>"
| "handle (Props a dt) v = v\<lparr>area := a, dataType := dt\<rparr>"
| "handle Tick v = v"
| "handle Unmount v = v\<lparr>liveEffect := None\<rparr>"
| "handle (Settle e isInitialLoad resp) v = settle (liveEffect v = Some e) isInitialLoad resp v"

text \<open>\<open>useEffect(() => { setSelectedCabinet('All') }, [selectedArea])\<close>\<close>

definition selectedAreaEffect :: "viewer \<Rightarrow> viewer \<Rightarrow> viewer" where
  "selectedAreaEffect prev v =
     (if selectedArea v \<noteq> selectedArea prev then v\<lparr>selectedCabinet := str ''All''\<rparr> else v)"

text \<open>
  The effect on \<open>[area, dataType]\<close>: the cleanup of the previous run, then a new run with
  \<open>fetchData(true)\<close> and the four resets.
\<close>

definition keyEffect :: "viewer \<Rightarrow> viewer \<Rightarrow> viewer" where
  "keyEffect prev v =
     (if area v \<noteq> area prev \<or> dataType v \<noteq> dataType prev then
        v\<lparr>liveEffect := Some (effectCount v),
          effectCount := Suc (effectCount v),
          loading := True,
          error := None,
          selectedType := str ''All'',
          selectedArea := str ''All'',
          selectedCabinet := str ''All'',
          searchTerm := []\<rparr>
      else v)"

text \<open>
  One event: the handler, then the effects whose dependencies changed in the render that
  follows, in the order of the source, then the effect on \<open>[selectedArea]\<close> once more for
  the render caused by the resets. An unmounted component renders no more; only requests
  still under way come back.
\<close>

definition step :: "event \<Rightarrow> viewer \<Rightarrow> viewer" where
  "step ev v =
     (if liveEffect v = None then
        (case ev of Settle e isInitialLoad resp \<Rightarrow> settle False isInitialLoad resp v | _ \<Rightarrow> v)
      else
        (let v1 = handle ev v;
             v2 = selectedAreaEffect v v1;
             v3 = keyEffect v v2
         in selectedAreaEffect v2 v3))"

fun run :: "event list \<Rightarrow> viewer \<Rightarrow> viewer" where
  "run [] v = v"
| "run (ev # evs) v = run evs (step ev v)"

text \<open>The state after the mount: the initial values of \<open>useState\<close> and the first effects.\<close>

definition mount :: "area \<Rightarrow> dataType \<Rightarrow> viewer" where
  "mount a dt =
     \<lparr> data = None, loading = True, error = None,
       selectedType = str ''All'', selectedArea = str ''All'', selectedCabinet = str ''All'',
       searchTerm = [], area = a, dataType = dt,
       liveEffect = Some 0, effectCount = 1 \<rparr>"

section \<open>Notions used to state the properties\<close>

text \<open>A cell whose text, in lower case and trimmed, is the given label.\<close>

definition labelled :: "lowering \<Rightarrow> jsString \<Rightarrow> cell \<Rightarrow> bool" where
  "labelled u label c =
     (case c of None \<Rightarrow> False | Some h \<Rightarrow> trim (toLowerCase u h) = label)"

text \<open>
  The grid the component receives has the type \<open>string[][]\<close>: every cell is a string.
  Rows may differ in length.
\<close>

definition allStrings :: "row \<Rightarrow> bool" where
  "allStrings r = list_all (\<lambda>c. c \<noteq> None) r"

definition wellFormed :: "grid \<Rightarrow> bool" where
  "wellFormed g = list_all allStrings g"

definition headerRow0 :: "grid \<Rightarrow> row" where
  "headerRow0 g = (case g of [] \<Rightarrow> [] | r # _ \<Rightarrow> r)"

text \<open>The column of a header row that a label names: the first cell labelled so.\<close>

definition firstLabelled :: "lowering \<Rightarrow> jsString \<Rightarrow> row \<Rightarrow> nat \<Rightarrow> bool" where
  "firstLabelled u label h i =
     (i < length h \<and> labelled u label (h ! i) \<and> (\<forall>j<i. \<not> labelled u label (h ! j)))"

definition removeAt :: "nat \<Rightarrow> 'a list \<Rightarrow> 'a list" where
  "removeAt i xs = take i xs @ drop (Suc i) xs"


text \<open>The reorder of the equipment view applied to its own result.\<close>

definition reorderedTwice :: "lowering \<Rightarrow> grid \<Rightarrow> error + grid option" where
  "reorderedTwice u g =
     (case reorderedData u True (Some g) of
        Inl e \<Rightarrow> Inl e
      | Inr d \<Rightarrow> reorderedData u True d)"

definition startsWithAll :: "jsString list \<Rightarrow> bool" where
  "startsWithAll opts = (case opts of [] \<Rightarrow> False | x # _ \<Rightarrow> x = str ''All'')"

text \<open>
  When the memos give options for a facet. For the types and the areas: the reordered grid
  has a data row and header row 0 has a cell with the label. For the cabinets, given the
  selected area: both columns are there, and some data row with the selected area in the
  area column has a cabinet cell that is not empty.
\<close>

definition facetEnabled :: "lowering \<Rightarrow> jsString \<Rightarrow> dataType \<Rightarrow> grid \<Rightarrow> bool" where
  "facetEnabled u label dt rd =
     (headerRowCount dt + 1 \<le> length rd \<and> list_ex (labelled u label) (headerRow0 rd))"

definition cabinetInArea :: "lowering \<Rightarrow> dataType \<Rightarrow> grid \<Rightarrow> jsString \<Rightarrow> bool" where
  "cabinetInArea u dt rd selected =
     (\<exists>ai ci. firstLabelled u (str ''area'') (headerRow0 rd) ai \<and>
              firstLabelled u (str ''cabinet'') (headerRow0 rd) ci \<and>
              list_ex (\<lambda>r. cellAt r ai = Some selected \<and>
                            (\<exists>s. cellAt r ci = Some s \<and> s \<noteq> []))
                (drop (headerRowCount dt) rd))"

text \<open>A data row holds the very string \<open>All\<close> in the column of the label.\<close>

definition allInColumn :: "lowering \<Rightarrow> jsString \<Rightarrow> dataType \<Rightarrow> grid \<Rightarrow> bool" where
  "allInColumn u label dt rd =
     (\<exists>i. firstLabelled u label (headerRow0 rd) i \<and>
          list_ex (\<lambda>r. cellAt r i = Some (str ''All'')) (drop (headerRowCount dt) rd))"

text \<open>String \<open>s\<close> contains \<open>t\<close> when the case of the letters is ignored.\<close>

definition containsIgnoreCase :: "lowering \<Rightarrow> jsString \<Rightarrow> jsString \<Rightarrow> bool" where
  "containsIgnoreCase u s t = includesStr (toLowerCase u s) (toLowerCase u t)"

text \<open>
  A request fails when the transport fails (\<open>fetch\<close> rejects, the status is not ok, the body
  is not JSON) or when the body has not the agreed shape (\<open>success\<close> false, \<open>data\<close> no array).
\<close>

definition failed :: "response \<Rightarrow> bool" where
  "failed resp =
     (case firstThen resp of
        Inl msg \<Rightarrow> True
      | Inr (success, d, err) \<Rightarrow> \<not> (success \<and> d \<noteq> None))"

text \<open>
  The events that cancel the running effect on \<open>[area, dataType]\<close>: the unmount, and a
  render with another \<open>area\<close> or \<open>dataType\<close>.
\<close>

definition cancels :: "event \<Rightarrow> viewer \<Rightarrow> bool" where
  "cancels ev v =
     (case ev of
        Unmount \<Rightarrow> True
      | Props a dt \<Rightarrow> a \<noteq> area v \<or> dt \<noteq> dataType v
      | _ \<Rightarrow> False)"

text \<open>A request of effect run \<open>e\<close> is stale once that run exists and is no longer the live one.\<close>

definition stale :: "nat \<Rightarrow> viewer \<Rightarrow> bool" where
  "stale e v = (liveEffect v \<noteq> Some e \<and> e < effectCount v)"

definition liveBelowCount :: "viewer \<Rightarrow> bool" where
  "liveBelowCount v = (case liveEffect v of None \<Rightarrow> True | Some k \<Rightarrow> k < effectCount v)"

section \<open>Header lookup and the row reorder\<close>

lemma enumerate_fst_ge: "p \<in> set (enumerate n xs) \<Longrightarrow> n \<le> fst p"
  by (induction xs arbitrary: n) (auto dest: Suc_leD)

lemma filter_enumerate_above:
  "c < n \<Longrightarrow> map snd (filter (\<lambda>p. fst p \<noteq> c) (enumerate n xs)) = xs"
proof -
  assume "c < n"
  then have "filter (\<lambda>p. fst p \<noteq> c) (enumerate n xs) = enumerate n xs"
    by (auto simp: filter_id_conv dest: enumerate_fst_ge)
  then show ?thesis by simp
qed

lemma filter_enumerate_shift:
  "map snd (filter (\<lambda>p. fst p \<noteq> n + c) (enumerate n xs)) = take c xs @ drop (Suc c) xs"
proof (induction xs arbitrary: n c)
  case Nil
  then show ?case by simp
next
  case (Cons x xs)
  show ?case
  proof (cases c)
    case 0
    then show ?thesis by (simp add: filter_enumerate_above)
  next
    case (Suc k)
    with Cons.IH [of "Suc n" k] show ?thesis by simp
  qed
qed

lemma filterIndexNe_take_drop: "filterIndexNe c r = take c r @ drop (Suc c) r"
  using filter_enumerate_shift [of 0 c r] by (simp add: filterIndexNe_def)

lemma findIndex_Some_D:
  "findIndex u label h = Inr (Some i) \<Longrightarrow>
     i < length h \<and> labelled u label (h ! i) \<and> (\<forall>j<i. h ! j \<noteq> None \<and> \<not> labelled u label (h ! j))"
proof (induction u label h arbitrary: i rule: findIndex.induct)
  case (1 u label)
  then show ?case by simp
next
  case (2 u label hs)
  then show ?case by simp
next
  case (3 u label h hs)
  show ?case
  proof (cases "trim (toLowerCase u h) = label")
    case True
    with 3 show ?thesis by (simp add: labelled_def)
  next
    case False
    with "3.prems" obtain k where k: "findIndex u label hs = Inr (Some k)" "i = Suc k"
      by (auto split: sum.splits option.splits)
    from "3.IH" [OF False k(1)] k(2) False show ?thesis
      by (auto simp: labelled_def less_Suc_eq_0_disj)
  qed
qed

lemma findIndex_None_D:
  "findIndex u label h = Inr None \<Longrightarrow> (\<forall>c\<in>set h. c \<noteq> None \<and> \<not> labelled u label c)"
  by (induction u label h rule: findIndex.induct)
     (auto simp: labelled_def split: if_splits sum.splits option.splits)

lemma findIndex_first:
  "i < length h \<Longrightarrow> labelled u label (h ! i) \<Longrightarrow> \<forall>j<i. h ! j \<noteq> None \<and> \<not> labelled u label (h ! j) \<Longrightarrow>
     findIndex u label h = Inr (Some i)"
proof (induction u label h arbitrary: i rule: findIndex.induct)
  case (1 u label)
  then show ?case by simp
next
  case (2 u label hs)
  then show ?case by (cases i) (auto simp: labelled_def)
next
  case (3 u label h hs)
  show ?case
  proof (cases i)
    case 0
    with 3 show ?thesis by (simp add: labelled_def)
  next
    case (Suc k)
    with "3.prems" have nm: "trim (toLowerCase u h) \<noteq> label"
      by (auto simp: labelled_def)
    from "3.prems" Suc have "findIndex u label hs = Inr (Some k)"
      by (intro "3.IH" [OF nm]) auto
    with nm Suc show ?thesis by simp
  qed
qed

lemma findIndex_absent:
  "\<forall>c\<in>set h. c \<noteq> None \<and> \<not> labelled u label c \<Longrightarrow> findIndex u label h = Inr None"
  by (induction u label h rule: findIndex.induct) (auto simp: labelled_def)

lemma findIndex_total:
  "allStrings h \<Longrightarrow> \<exists>r. findIndex u label h = Inr r"
proof (induction u label h rule: findIndex.induct)
  case (3 u label h hs)
  show ?case
  proof (cases "trim (toLowerCase u h) = label")
    case True
    then show ?thesis by simp
  next
    case False
    from 3 have "allStrings hs" by (simp add: allStrings_def)
    with "3.IH" [OF False] obtain r where "findIndex u label hs = Inr r" by blast
    with False show ?thesis by (cases r) auto
  qed
qed (auto simp: allStrings_def)

lemma length_removeAt:
  "length (removeAt c r) = (if c < length r then length r - 1 else length r)"
  by (auto simp: removeAt_def)

lemma nth_removeAt:
  "j < length (removeAt c r) \<Longrightarrow> removeAt c r ! j = (if j < c then r ! j else r ! Suc j)"
  by (auto simp: removeAt_def nth_append min_def)

lemma reorderRow_eq:
  "reorderRow a c r =
     take (Suc (if c < a then a - 1 else a)) (removeAt c r) @ cellAt r c #
     drop (Suc (if c < a then a - 1 else a)) (removeAt c r)"
  by (simp add: reorderRow_def splice0_def filterIndexNe_take_drop removeAt_def Let_def)

lemma newArea_bound:
  "a < length r \<Longrightarrow> a \<noteq> c \<Longrightarrow> (if c < a then a - 1 else a) < length (removeAt c r)"
  by (auto simp: length_removeAt)

lemma reorderRow_nth_low:
  assumes "a < length r" "a \<noteq> c" "j \<le> (if c < a then a - 1 else a)"
  shows "reorderRow a c r ! j = (if j < c then r ! j else r ! Suc j)"
proof -
  let ?n = "if c < a then a - 1 else a"
  from newArea_bound [OF assms(1,2)] have n: "?n < length (removeAt c r)" .
  with assms(3) have j: "j < length (removeAt c r)" by simp
  have "reorderRow a c r ! j = take (Suc ?n) (removeAt c r) ! j"
    using n assms(3) by (subst reorderRow_eq) (simp add: nth_append)
  also have "\<dots> = removeAt c r ! j" using assms(3) by simp
  finally show ?thesis using nth_removeAt [OF j] by simp
qed

lemma reorderRow_at_area:
  assumes "a < length r" "a \<noteq> c"
  shows "Suc (if c < a then a - 1 else a) < length (reorderRow a c r)"
    and "reorderRow a c r ! (if c < a then a - 1 else a) = r ! a"
    and "reorderRow a c r ! Suc (if c < a then a - 1 else a) = cellAt r c"
proof -
  let ?n = "if c < a then a - 1 else a"
  from newArea_bound [OF assms] have n: "?n < length (removeAt c r)" .
  then show "Suc ?n < length (reorderRow a c r)"
    by (subst reorderRow_eq) simp
  show "reorderRow a c r ! ?n = r ! a"
    using reorderRow_nth_low [OF assms, of ?n] assms(2) by (auto split: if_splits)
  show "reorderRow a c r ! Suc ?n = cellAt r c"
    using n by (subst reorderRow_eq) (simp add: nth_append)
qed




lemma allStrings_nth: "allStrings h \<Longrightarrow> j < length h \<Longrightarrow> h ! j \<noteq> None"
  by (simp add: allStrings_def list_all_length)

lemma findIndex_firstLabelled:
  "allStrings h \<Longrightarrow> firstLabelled u label h i \<Longrightarrow> findIndex u label h = Inr (Some i)"
proof (rule findIndex_first)
  assume a: "allStrings h" and f: "firstLabelled u label h i"
  from f show "i < length h" "labelled u label (h ! i)" by (simp_all add: firstLabelled_def)
  show "\<forall>j<i. h ! j \<noteq> None \<and> \<not> labelled u label (h ! j)"
  proof (intro allI impI)
    fix j assume "j < i"
    with f have "j < length h" "\<not> labelled u label (h ! j)" by (simp_all add: firstLabelled_def)
    with allStrings_nth [OF a] show "h ! j \<noteq> None \<and> \<not> labelled u label (h ! j)" by simp
  qed
qed

lemma findIndex_not_labelled:
  "allStrings h \<Longrightarrow> \<not> list_ex (labelled u label) h \<Longrightarrow> findIndex u label h = Inr None"
  by (rule findIndex_absent) (auto simp: allStrings_def list_all_iff list_ex_iff)

lemma findIndex_Some_firstLabelled:
  "findIndex u label h = Inr (Some i) \<Longrightarrow> firstLabelled u label h i"
  by (drule findIndex_Some_D) (simp add: firstLabelled_def)

lemma firstLabelled_list_ex: "firstLabelled u label h i \<Longrightarrow> list_ex (labelled u label) h"
  by (auto simp: firstLabelled_def list_ex_length)

lemma reorder_rows:
  "findIndex u (str ''area'') (hd g) = Inr (Some a) \<Longrightarrow> findIndex u (str ''cabinet'') (hd g) = Inr (Some c) \<Longrightarrow>
     reorder u g = Inr (if c = a + 1 then g else map (reorderRow a c) g)"
  by (simp add: reorder_def)

lemma reorder_absent:
  "findIndex u (str ''area'') (hd g) = Inr ia \<Longrightarrow> findIndex u (str ''cabinet'') (hd g) = Inr ic \<Longrightarrow>
     ia = None \<or> ic = None \<Longrightarrow> reorder u g = Inr g"
  by (auto simp: reorder_def split: option.splits)

lemma hd_headerRow0: "g \<noteq> [] \<Longrightarrow> hd g = headerRow0 g"
  by (cases g) (simp_all add: headerRow0_def)

lemma str_area_cabinet: "str ''area'' \<noteq> str ''cabinet''"
  by (simp add: str_def)

lemma labelled_area_cabinet: "labelled u (str ''area'') x \<Longrightarrow> \<not> labelled u (str ''cabinet'') x"
  using str_area_cabinet by (auto simp: labelled_def split: option.splits)





lemma reorderRow_header_area:
  assumes fa: "findIndex u (str ''area'') r = Inr (Some a)"
    and fc: "findIndex u (str ''cabinet'') r = Inr (Some c)"
  shows "findIndex u (str ''area'') (reorderRow a c r) = Inr (Some (if c < a then a - 1 else a))"
proof (rule findIndex_first)
  let ?n = "if c < a then a - 1 else a"
  from findIndex_Some_D [OF fa] have a: "a < length r" "labelled u (str ''area'') (r ! a)"
    "\<And>j. j < a \<Longrightarrow> r ! j \<noteq> None \<and> \<not> labelled u (str ''area'') (r ! j)" by auto
  from findIndex_Some_D [OF fc] have c: "c < length r" "labelled u (str ''cabinet'') (r ! c)" by auto
  from a(2) c(2) have ne: "a \<noteq> c" by (auto dest: labelled_area_cabinet)
  from reorderRow_at_area [OF a(1) ne]
  show "?n < length (reorderRow a c r)" "labelled u (str ''area'') (reorderRow a c r ! ?n)"
    using a(2) by auto
  show "\<forall>j<?n. reorderRow a c r ! j \<noteq> None \<and> \<not> labelled u (str ''area'') (reorderRow a c r ! j)"
  proof (intro allI impI)
    fix j assume j: "j < ?n"
    then have "reorderRow a c r ! j = (if j < c then r ! j else r ! Suc j)"
      by (intro reorderRow_nth_low [OF a(1) ne]) simp
    moreover from j ne have "(if j < c then j else Suc j) < a" by (auto split: if_splits)
    ultimately show "reorderRow a c r ! j \<noteq> None \<and> \<not> labelled u (str ''area'') (reorderRow a c r ! j)"
      using a(3) [of "if j < c then j else Suc j"] by (auto split: if_splits)
  qed
qed

lemma reorderRow_header_cabinet:
  assumes fa: "findIndex u (str ''area'') r = Inr (Some a)"
    and fc: "findIndex u (str ''cabinet'') r = Inr (Some c)"
    and between: "\<forall>j. c < j \<and> j < a \<longrightarrow> \<not> labelled u (str ''cabinet'') (r ! j)"
  shows "findIndex u (str ''cabinet'') (reorderRow a c r) = Inr (Some (Suc (if c < a then a - 1 else a)))"
proof (rule findIndex_first)
  let ?n = "if c < a then a - 1 else a"
  from findIndex_Some_D [OF fa] have a: "a < length r" "labelled u (str ''area'') (r ! a)"
    "\<And>j. j < a \<Longrightarrow> r ! j \<noteq> None" by auto
  from findIndex_Some_D [OF fc] have c: "c < length r" "labelled u (str ''cabinet'') (r ! c)"
    "\<And>j. j < c \<Longrightarrow> r ! j \<noteq> None \<and> \<not> labelled u (str ''cabinet'') (r ! j)" by auto
  from a(2) c(2) have ne: "a \<noteq> c" by (auto dest: labelled_area_cabinet)
  from a(2) have a_some: "r ! a \<noteq> None" by (auto simp: labelled_def split: option.splits)
  from reorderRow_at_area [OF a(1) ne] c
  show "Suc ?n < length (reorderRow a c r)"
    "labelled u (str ''cabinet'') (reorderRow a c r ! Suc ?n)"
    by (auto simp: cellAt_def)
  show "\<forall>j<Suc ?n. reorderRow a c r ! j \<noteq> None \<and> \<not> labelled u (str ''cabinet'') (reorderRow a c r ! j)"
  proof (intro allI impI)
    fix j assume j: "j < Suc ?n"
    let ?k = "if j < c then j else Suc j"
    from j have eq: "reorderRow a c r ! j = r ! ?k"
      using reorderRow_nth_low [OF a(1) ne, of j] by simp
    have "r ! ?k \<noteq> None \<and> \<not> labelled u (str ''cabinet'') (r ! ?k)"
    proof (cases "j < c")
      case True
      with c(3) [of j] show ?thesis by simp
    next
      case False
      with j ne have k: "c < Suc j" "Suc j \<le> a" by (auto split: if_splits)
      show ?thesis
      proof (cases "Suc j = a")
        case True
        with False a(2) a_some show ?thesis by (auto dest: labelled_area_cabinet)
      next
        case False
        with k have "Suc j < a" by simp
        with k(1) between a(3) [of "Suc j"] \<open>\<not> j < c\<close> show ?thesis by auto
      qed
    qed
    with eq show "reorderRow a c r ! j \<noteq> None \<and> \<not> labelled u (str ''cabinet'') (reorderRow a c r ! j)"
      by simp
  qed
qed

lemma reorder_fixed:
  assumes "g \<noteq> []"
    and fa: "findIndex u (str ''area'') (hd g) = Inr (Some a)"
    and fc: "findIndex u (str ''cabinet'') (hd g) = Inr (Some c)"
    and between: "\<forall>j. c < j \<and> j < a \<longrightarrow> \<not> labelled u (str ''cabinet'') (hd g ! j)"
  shows "reorder u (map (reorderRow a c) g) = Inr (map (reorderRow a c) g)"
proof -
  from assms(1) have hd: "hd (map (reorderRow a c) g) = reorderRow a c (hd g)"
    by (simp add: hd_map)
  from reorder_rows [where g = "map (reorderRow a c) g", unfolded hd,
      OF reorderRow_header_area [OF fa fc] reorderRow_header_cabinet [OF fa fc between]]
  show ?thesis by simp
qed

text \<open>
  Claim C2, as amended. Reordering twice gives the same as reordering once for every grid in
  whose header row 0 no cell labelled \<open>cabinet\<close> stands strictly between the first cabinet
  column and the area column. (An exception of the first reorder is the result of both.)
\<close>

theorem reorder_idempotent:
  assumes "\<forall>a c. firstLabelled u (str ''area'') (headerRow0 g) a \<and>
                 firstLabelled u (str ''cabinet'') (headerRow0 g) c \<longrightarrow>
             (\<forall>j. c < j \<and> j < a \<longrightarrow> \<not> labelled u (str ''cabinet'') (headerRow0 g ! j))"
  shows "reorderedTwice u g = reorderedData u True (Some g)"
proof (cases "g = []")
  case True
  then show ?thesis by (simp add: reorderedTwice_def reorderedData_def)
next
  case False
  then have h: "hd g = headerRow0 g" by (rule hd_headerRow0)
  show ?thesis
  proof (cases "reorder u g")
    case (Inl e)
    with False show ?thesis by (simp add: reorderedTwice_def reorderedData_def)
  next
    case (Inr g')
    then obtain ia ic where ia: "findIndex u (str ''area'') (hd g) = Inr ia"
      and ic: "findIndex u (str ''cabinet'') (hd g) = Inr ic"
      by (auto simp: reorder_def split: sum.splits)
    have "reorder u g' = Inr g'"
    proof (cases "ia = None \<or> ic = None")
      case True
      from reorder_absent [OF ia ic True] Inr show ?thesis by simp
    next
      case False
      then obtain a c where ac: "ia = Some a" "ic = Some c" by auto
      note fa = ia [unfolded ac] and fc = ic [unfolded ac]
      show ?thesis
      proof (cases "c = a + 1")
        case True
        with reorder_rows [OF fa fc] Inr show ?thesis by simp
      next
        case False
        from fa fc have "firstLabelled u (str ''area'') (headerRow0 g) a"
          "firstLabelled u (str ''cabinet'') (headerRow0 g) c"
          unfolding h by (auto dest: findIndex_Some_firstLabelled)
        with assms have "\<forall>j. c < j \<and> j < a \<longrightarrow> \<not> labelled u (str ''cabinet'') (hd g ! j)"
          unfolding h by blast
        from reorder_fixed [OF \<open>g \<noteq> []\<close> fa fc this] reorder_rows [OF fa fc] Inr False
        show ?thesis by simp
      qed
    qed
    moreover from Inr have "g' \<noteq> []" using \<open>g \<noteq> []\<close>
      by (auto simp: reorder_def split: sum.splits option.splits if_splits)
    ultimately show ?thesis using Inr \<open>g \<noteq> []\<close>
      by (simp add: reorderedTwice_def reorderedData_def)
  qed
qed

theorem reorder_idempotent_witness:
  "reorderedTwice asciiFold [[Some (str ''Cabinet''), Some (str ''Desc''), Some (str '' AREA ''), Some (str ''Slot1'')],
                   [Some (str ''C1''), Some (str ''Valve''), Some (str ''North''), Some (str ''3'')]]
   = Inr (Some [[Some (str ''Desc''), Some (str '' AREA ''), Some (str ''Cabinet''), Some (str ''Slot1'')],
                [Some (str ''Valve''), Some (str ''North''), Some (str ''C1''), Some (str ''3'')]])"
proof -
  let ?g = "[[Some (str ''Cabinet''), Some (str ''Desc''), Some (str '' AREA ''), Some (str ''Slot1'')],
             [Some (str ''C1''), Some (str ''Valve''), Some (str ''North''), Some (str ''3'')]]"
  have l: "\<not> labelled asciiFold (str ''cabinet'') (Some (str ''Desc''))" "\<not> labelled asciiFold (str ''cabinet'') (Some (str '' AREA ''))"
    "\<not> labelled asciiFold (str ''cabinet'') (Some (str ''Slot1''))"
    by code_simp+
  have "\<not> labelled asciiFold (str ''cabinet'') (headerRow0 ?g ! j)" if "c < j" "j < a" "a < 4" for a c j :: nat
  proof -
    from that have "j = 1 \<or> j = 2" by auto
    with l show ?thesis by (auto simp: headerRow0_def)
  qed
  then have "\<forall>a c. firstLabelled asciiFold (str ''area'') (headerRow0 ?g) a \<and>
                 firstLabelled asciiFold (str ''cabinet'') (headerRow0 ?g) c \<longrightarrow>
             (\<forall>j. c < j \<and> j < a \<longrightarrow> \<not> labelled asciiFold (str ''cabinet'') (headerRow0 ?g ! j))"
    by (auto simp: firstLabelled_def headerRow0_def)
  from reorder_idempotent [OF this]
  have "reorderedTwice asciiFold ?g = reorderedData asciiFold True (Some ?g)" .
  also have "\<dots> = Inr (Some [[Some (str ''Desc''), Some (str '' AREA ''), Some (str ''Cabinet''), Some (str ''Slot1'')],
                [Some (str ''Valve''), Some (str ''North''), Some (str ''C1''), Some (str ''3'')]])"
    by code_simp
  finally show ?thesis .
qed

text \<open>
  Claim C2 as stated fails: with two columns labelled \<open>cabinet\<close> before the area column the
  first reorder moves the first of them, and the second reorder moves the other one. The
  strings of the grid are ASCII, so that the lowering plays no part.
\<close>

theorem reorder_idempotent_counterexample:
  "reorderedTwice asciiFold [[Some (str ''cabinet''), Some (str ''cabinet''), Some (str ''area'')],
                   [Some (str ''C1''), Some (str ''C2''), Some (str ''North'')]]
   \<noteq> reorderedData asciiFold True (Some [[Some (str ''cabinet''), Some (str ''cabinet''), Some (str ''area'')],
                                 [Some (str ''C1''), Some (str ''C2''), Some (str ''North'')]])"
  by code_simp

text \<open>
  The condition on the header is also necessary: on a header of strings with a further
  cabinet column between the first one and the area column, the second reorder changes
  header row 0 again.
\<close>

lemma reorderedTwice_changes:
  assumes hs: "allStrings (headerRow0 g)"
    and fa: "firstLabelled u (str ''area'') (headerRow0 g) a"
    and fc: "firstLabelled u (str ''cabinet'') (headerRow0 g) c"
    and j: "c < j" "j < a" "labelled u (str ''cabinet'') (headerRow0 g ! j)"
  shows "reorderedTwice u g \<noteq> reorderedData u True (Some g)"
proof -
  let ?h = "headerRow0 g"
  from fa have ne: "g \<noteq> []" by (auto simp: firstLabelled_def headerRow0_def)
  then have h: "hd g = ?h" by (rule hd_headerRow0)
  from findIndex_firstLabelled [OF hs fa] have ia: "findIndex u (str ''area'') (hd g) = Inr (Some a)"
    unfolding h .
  from findIndex_firstLabelled [OF hs fc] have ic: "findIndex u (str ''cabinet'') (hd g) = Inr (Some c)"
    unfolding h .
  from fa have a: "a < length ?h" "labelled u (str ''area'') (?h ! a)"
    "\<And>k. k < a \<Longrightarrow> \<not> labelled u (str ''area'') (?h ! k)" by (auto simp: firstLabelled_def)
  from fc have c: "\<And>k. k < c \<Longrightarrow> \<not> labelled u (str ''cabinet'') (?h ! k)"
    by (auto simp: firstLabelled_def)
  from j have ca: "c < a" "a \<noteq> c" by auto
  \<comment> \<open>the first further cabinet column before the area column\<close>
  from j have "\<exists>k. c < k \<and> k < a \<and> labelled u (str ''cabinet'') (?h ! k)" by blast
  then obtain m where m: "c < m" "m < a" "labelled u (str ''cabinet'') (?h ! m)"
    and least: "\<And>k. k < m \<Longrightarrow> \<not> (c < k \<and> k < a \<and> labelled u (str ''cabinet'') (?h ! k))"
    unfolding exists_least_iff [of "\<lambda>k. c < k \<and> k < a \<and> labelled u (str ''cabinet'') (?h ! k)"]
    by blast
  let ?h1 = "reorderRow a c ?h"
  let ?g1 = "map (reorderRow a c) g"
  from reorder_rows [OF ia ic] ca have r1: "reorder u g = Inr ?g1" by simp
  have hd1: "hd ?g1 = ?h1" using ne by (simp add: hd_map h)
  have low: "?h1 ! k = (if k < c then ?h ! k else ?h ! Suc k)" if "k \<le> a - 1" for k
    using reorderRow_nth_low [OF a(1) ca(2), of k] that ca(1) by simp
  from reorderRow_header_area [OF ia ic] ca
  have ia1: "findIndex u (str ''area'') (hd ?g1) = Inr (Some (a - 1))"
    unfolding hd1 h by simp
  have ic1: "findIndex u (str ''cabinet'') (hd ?g1) = Inr (Some (m - 1))"
    unfolding hd1
  proof (rule findIndex_first)
    from reorderRow_at_area(1) [OF a(1) ca(2)] ca m
    show "m - 1 < length ?h1" by auto
    from m have "\<not> m - 1 < c" "Suc (m - 1) = m" "m - 1 \<le> a - 1" by auto
    with m(3) low [of "m - 1"] show "labelled u (str ''cabinet'') (?h1 ! (m - 1))" by simp
    show "\<forall>k<m - 1. ?h1 ! k \<noteq> None \<and> \<not> labelled u (str ''cabinet'') (?h1 ! k)"
    proof (intro allI impI)
      fix k assume k: "k < m - 1"
      let ?k = "if k < c then k else Suc k"
      from k m have "k \<le> a - 1" by auto
      then have eq: "?h1 ! k = ?h ! ?k" using low [of k] by simp
      from k m a(1) have "?k < length ?h" by (auto split: if_splits)
      with allStrings_nth [OF hs] have "?h ! ?k \<noteq> None" by blast
      moreover have "\<not> labelled u (str ''cabinet'') (?h ! ?k)"
      proof (cases "k < c")
        case True
        with c [of k] show ?thesis by simp
      next
        case False
        with k m have "Suc k < m" "c < Suc k" "Suc k < a" by auto
        with least [of "Suc k"] False show ?thesis by simp
      qed
      ultimately show "?h1 ! k \<noteq> None \<and> \<not> labelled u (str ''cabinet'') (?h1 ! k)"
        using eq by simp
    qed
  qed
  from m have m1: "m - 1 \<noteq> (a - 1) + 1" "m - 1 < a - 1" by auto
  let ?g2 = "map (reorderRow (a - 1) (m - 1)) ?g1"
  from reorder_rows [OF ia1 ic1] m1 have r2: "reorder u ?g1 = Inr ?g2" by simp
  have "hd ?g2 \<noteq> hd ?g1"
  proof
    assume eq: "hd ?g2 = hd ?g1"
    have len1: "a - 1 < length ?h1"
      using reorderRow_at_area(1) [OF a(1) ca(2)] ca by auto
    from m1 have "a - 1 \<noteq> m - 1" by simp
    from reorderRow_at_area(2) [OF len1 this] m1
    have "reorderRow (a - 1) (m - 1) ?h1 ! (a - 1 - 1) = ?h1 ! (a - 1)"
      by simp
    moreover have "hd ?g2 = reorderRow (a - 1) (m - 1) ?h1"
      using ne by (simp add: hd_map h)
    ultimately have "?h1 ! (a - 1 - 1) = ?h1 ! (a - 1)" using eq hd1 by simp
    moreover have "?h1 ! (a - 1 - 1) = ?h ! (a - 1)"
    proof -
      from m have "\<not> a - 1 - 1 < c" "Suc (a - 1 - 1) = a - 1" "a - 1 - 1 \<le> a - 1" by auto
      with low [of "a - 1 - 1"] show ?thesis by simp
    qed
    moreover from reorderRow_at_area(2) [OF a(1) ca(2)] ca have "?h1 ! (a - 1) = ?h ! a"
      by simp
    ultimately have "?h ! (a - 1) = ?h ! a" by simp
    moreover from ca have "a - 1 < a" by simp
    ultimately show False using a(2) a(3) [of "a - 1"] by simp
  qed
  then have "?g2 \<noteq> ?g1" by metis
  moreover from ne have "?g1 \<noteq> []" by simp
  ultimately show ?thesis using r1 r2 ne
    by (simp add: reorderedTwice_def reorderedData_def)
qed



section \<open>Grids of strings and the facet option lists\<close>

lemma set_splice0: "set (take n w @ v # drop n w) = insert v (set w)"
proof -
  have "set (take n w) \<union> set (drop n w) = set w"
    by (metis append_take_drop_id set_append)
  then show ?thesis by auto
qed

lemma set_reorderRow: "c < length r \<Longrightarrow> set (reorderRow a c r) = set r"
proof -
  assume c: "c < length r"
  have "set (reorderRow a c r) = insert (r ! c) (set (removeAt c r))"
    using c by (simp only: reorderRow_eq set_splice0 cellAt_def if_True)
  also have "\<dots> = set (take c r @ r ! c # drop (Suc c) r)"
    by (auto simp: removeAt_def)
  also have "\<dots> = set r" using c by (simp only: id_take_nth_drop [symmetric])
  finally show ?thesis .
qed

lemma allStrings_set: "allStrings r = (None \<notin> set r)"
  unfolding allStrings_def list_all_iff by metis

text \<open>The reorder on a grid of strings: no exception, as many rows, the same header cells.\<close>

lemma reorder_wellFormed:
  assumes "g \<noteq> []" "allStrings (hd g)"
  shows "\<exists>g'. reorder u g = Inr g' \<and> length g' = length g \<and> set (hd g') = set (hd g)"
proof -
  from findIndex_total [OF assms(2)] obtain ia ic
    where ia: "findIndex u (str ''area'') (hd g) = Inr ia" and ic: "findIndex u (str ''cabinet'') (hd g) = Inr ic"
    by blast
  show ?thesis
  proof (cases "ia = None \<or> ic = None")
    case True
    from reorder_absent [OF ia ic True] show ?thesis by simp
  next
    case False
    then obtain a c where ac: "ia = Some a" "ic = Some c" by auto
    from findIndex_Some_D [OF ic [unfolded ac]] have "c < length (hd g)" by simp
    then have "set (reorderRow a c (hd g)) = set (hd g)" by (rule set_reorderRow)
    with reorder_rows [OF ia [unfolded ac] ic [unfolded ac]] assms(1) show ?thesis
      by (simp add: hd_map)
  qed
qed

lemma wellFormed_hd: "wellFormed g \<Longrightarrow> g \<noteq> [] \<Longrightarrow> allStrings (hd g)"
  by (cases g) (simp_all add: wellFormed_def)

lemma reorderedData_wellFormed:
  assumes "wellFormed g"
  shows "\<exists>rd. reorderedData u b (Some g) = Inr (Some rd) \<and> length rd = length g \<and>
           allStrings (headerRow0 rd) \<and> set (headerRow0 rd) = set (headerRow0 g)"
proof (cases "\<not> b \<or> g = []")
  case True
  with assms show ?thesis
    by (cases g) (auto simp: reorderedData_def headerRow0_def wellFormed_def allStrings_def)
next
  case False
  then have ne: "g \<noteq> []" and b: b by simp_all
  from wellFormed_hd [OF assms ne] have hs: "allStrings (hd g)" .
  from reorder_wellFormed [OF ne hs] obtain g' where g': "reorder u g = Inr g'"
    "length g' = length g" "set (hd g') = set (hd g)" by blast
  from g'(2) ne have ne': "g' \<noteq> []" by auto
  from hs g'(3) have "allStrings (hd g')" by (simp add: allStrings_set)
  with g' ne ne' b show ?thesis
    by (simp add: reorderedData_def hd_headerRow0)
qed

lemma list_ex_labelled_set: "set h = set h' \<Longrightarrow> list_ex (labelled u l) h = list_ex (labelled u l) h'"
  by (simp add: list_ex_iff)

subsection \<open>Option lists\<close>

lemma filterBoolean_nonempty: "[] \<notin> set (filterBoolean cs)"
  by (induction cs rule: filterBoolean.induct) auto

lemma set_setAdd: "set (setAdd acc xs) = set acc \<union> set xs"
  by (induction acc xs rule: setAdd.induct) auto

lemma distinct_setAdd: "distinct acc \<Longrightarrow> distinct (setAdd acc xs)"
  by (induction acc xs rule: setAdd.induct) auto

lemma distinct_uniqueOf: "distinct (uniqueOf xs)"
  by (simp add: uniqueOf_def distinct_setAdd)

lemma set_uniqueOf: "set (uniqueOf xs) = set xs"
  by (simp add: uniqueOf_def set_setAdd)


lemma isFilterableView_all: "isFilterableView dt"
proof -
  have "isFilterableView Stock" "isFilterableView Stock_abb" "isFilterableView Stock_supcon"
    "isFilterableView Equipment"
    by code_simp+
  then show ?thesis by (cases dt) simp_all
qed

lemma set_filterBoolean: "set (filterBoolean cs) = {s. Some s \<in> set cs \<and> s \<noteq> []}"
  by (induction cs rule: filterBoolean.induct) auto

lemma column_options_set:
  "set (uniqueOf (filterBoolean (map (\<lambda>r. cellAt r k) rows)))
     = {s. s \<noteq> [] \<and> (\<exists>r\<in>set rows. cellAt r k = Some s)}"
  by (force simp: set_uniqueOf set_filterBoolean)

lemma firstLabelled_unique:
  assumes "firstLabelled u l h i" "firstLabelled u l h j"
  shows "i = j"
proof (rule ccontr)
  assume "i \<noteq> j"
  then consider "i < j" | "j < i" by linarith
  then show False using assms by cases (auto simp: firstLabelled_def)
qed

lemma findIndex_header_cases:
  assumes "allStrings h"
  shows "(\<exists>k. findIndex u l h = Inr (Some k) \<and> firstLabelled u l h k \<and> list_ex (labelled u l) h) \<or>
         (findIndex u l h = Inr None \<and> \<not> list_ex (labelled u l) h)"
proof -
  from findIndex_total [OF assms] obtain r where r: "findIndex u l h = Inr r" by blast
  show ?thesis
  proof (cases r)
    case None
    with r findIndex_None_D [of u l h] show ?thesis by (auto simp: list_ex_iff)
  next
    case (Some k)
    with r have "firstLabelled u l h k" by (auto dest: findIndex_Some_firstLabelled)
    with r Some show ?thesis by (auto dest: firstLabelled_list_ex)
  qed
qed

lemma all_option_allInColumn:
  assumes "firstLabelled u l (headerRow0 rd) k"
    and "str ''All'' \<in> set (uniqueOf (filterBoolean (map (\<lambda>r. cellAt r k) rows)))"
    and "set rows \<subseteq> set (drop (headerRowCount dt) rd)"
  shows "allInColumn u l dt rd"
proof -
  from assms(2) obtain r where "r \<in> set rows" "cellAt r k = Some (str ''All'')"
    by (auto simp: column_options_set)
  with assms(1,3) show ?thesis
    by (auto simp: allInColumn_def list_ex_iff)
qed

lemma All_options:
  assumes "str ''All'' \<notin> set us" "distinct us"
  shows "distinct (str ''All'' # us)"
  using assms by simp

lemma types_exact:
  assumes hs: "allStrings (headerRow0 rd)"
  shows "\<exists>opts i. types u dt (Some rd) = Inr (opts, i) \<and>
           (if facetEnabled u (str ''type'') dt rd
            then startsWithAll opts \<and> (\<exists>k. i = Some k \<and> firstLabelled u (str ''type'') (headerRow0 rd) k)
            else opts = [] \<and> i = None) \<and>
           (\<not> allInColumn u (str ''type'') dt rd \<longrightarrow> distinct opts)"
proof (cases "length rd < headerRowCount dt + 1")
  case True
  then show ?thesis by (auto simp: types_def facetEnabled_def)
next
  case False
  then have "rd \<noteq> []" by auto
  then have h: "hd rd = headerRow0 rd" by (rule hd_headerRow0)
  from findIndex_header_cases [OF hs, of u "str ''type''"] show ?thesis
  proof
    assume "findIndex u (str ''type'') (headerRow0 rd) = Inr None \<and>
            \<not> list_ex (labelled u (str ''type'')) (headerRow0 rd)"
    with False show ?thesis
      by (simp add: types_def h isFilterableView_all facetEnabled_def)
  next
    assume "\<exists>k. findIndex u (str ''type'') (headerRow0 rd) = Inr (Some k) \<and>
              firstLabelled u (str ''type'') (headerRow0 rd) k \<and>
              list_ex (labelled u (str ''type'')) (headerRow0 rd)"
    then obtain k where k: "findIndex u (str ''type'') (headerRow0 rd) = Inr (Some k)"
      "firstLabelled u (str ''type'') (headerRow0 rd) k"
      "list_ex (labelled u (str ''type'')) (headerRow0 rd)" by blast
    let ?us = "uniqueOf (filterBoolean (map (\<lambda>r. cellAt r k) (drop (headerRowCount dt) rd)))"
    from k(1) False have t: "types u dt (Some rd) = Inr (str ''All'' # ?us, Some k)"
      by (simp add: types_def h isFilterableView_all Let_def)
    from k(3) False have en: "facetEnabled u (str ''type'') dt rd"
      by (simp add: facetEnabled_def)
    have "distinct (str ''All'' # ?us)" if "\<not> allInColumn u (str ''type'') dt rd"
      using that all_option_allInColumn [OF k(2), of "drop (headerRowCount dt) rd" dt]
      by (intro All_options) (auto simp: distinct_uniqueOf)
    with t en k(2) show ?thesis by (simp add: startsWithAll_def)
  qed
qed

lemma areas_exact:
  assumes hs: "allStrings (headerRow0 rd)"
  shows "\<exists>opts i. areas u dt (Some rd) = Inr (opts, i) \<and>
           (if facetEnabled u (str ''area'') dt rd
            then startsWithAll opts \<and> (\<exists>k. i = Some k \<and> firstLabelled u (str ''area'') (headerRow0 rd) k)
            else opts = [] \<and> i = None) \<and>
           (\<not> allInColumn u (str ''area'') dt rd \<longrightarrow> distinct opts)"
proof (cases "length rd < headerRowCount dt + 1")
  case True
  then show ?thesis by (auto simp: areas_def facetEnabled_def)
next
  case False
  then have "rd \<noteq> []" by auto
  then have h: "hd rd = headerRow0 rd" by (rule hd_headerRow0)
  from findIndex_header_cases [OF hs, of u "str ''area''"] show ?thesis
  proof
    assume "findIndex u (str ''area'') (headerRow0 rd) = Inr None \<and>
            \<not> list_ex (labelled u (str ''area'')) (headerRow0 rd)"
    with False show ?thesis
      by (simp add: areas_def h facetEnabled_def)
  next
    assume "\<exists>k. findIndex u (str ''area'') (headerRow0 rd) = Inr (Some k) \<and>
              firstLabelled u (str ''area'') (headerRow0 rd) k \<and>
              list_ex (labelled u (str ''area'')) (headerRow0 rd)"
    then obtain k where k: "findIndex u (str ''area'') (headerRow0 rd) = Inr (Some k)"
      "firstLabelled u (str ''area'') (headerRow0 rd) k"
      "list_ex (labelled u (str ''area'')) (headerRow0 rd)" by blast
    let ?us = "uniqueOf (filterBoolean (map (\<lambda>r. cellAt r k) (drop (headerRowCount dt) rd)))"
    from k(1) False have t: "areas u dt (Some rd) = Inr (str ''All'' # ?us, Some k)"
      by (simp add: areas_def h Let_def)
    from k(3) False have en: "facetEnabled u (str ''area'') dt rd"
      by (simp add: facetEnabled_def)
    have "distinct (str ''All'' # ?us)" if "\<not> allInColumn u (str ''area'') dt rd"
      using that all_option_allInColumn [OF k(2), of "drop (headerRowCount dt) rd" dt]
      by (intro All_options) (auto simp: distinct_uniqueOf)
    with t en k(2) show ?thesis by (simp add: startsWithAll_def)
  qed
qed

lemma cabinets_exact:
  assumes hs: "allStrings (headerRow0 rd)"
    and ai: "if facetEnabled u (str ''area'') dt rd
             then \<exists>k. ai = Some k \<and> firstLabelled u (str ''area'') (headerRow0 rd) k
             else ai = None"
  shows "\<exists>opts ci. cabinets u dt (Some rd) selected ai = Inr (opts, ci) \<and>
           (if isEquipmentView dt \<and> headerRowCount dt + 1 \<le> length rd \<and>
               selected \<noteq> str ''All'' \<and> cabinetInArea u dt rd selected
            then startsWithAll opts else opts = []) \<and>
           (\<not> allInColumn u (str ''cabinet'') dt rd \<longrightarrow> distinct opts) \<and>
           (\<not> list_ex (labelled u (str ''cabinet'')) (headerRow0 rd) \<longrightarrow> opts = [] \<and> ci = None)"
proof (cases "\<not> isEquipmentView dt \<or> length rd < headerRowCount dt + 1")
  case True
  then show ?thesis by (auto simp: cabinets_def)
next
  case False
  then have eq: "isEquipmentView dt" and long: "headerRowCount dt + 1 \<le> length rd" by auto
  from long have "rd \<noteq> []" by auto
  then have h: "hd rd = headerRow0 rd" by (rule hd_headerRow0)
  from findIndex_header_cases [OF hs, of u "str ''cabinet''"] show ?thesis
  proof
    assume a: "findIndex u (str ''cabinet'') (headerRow0 rd) = Inr None \<and>
            \<not> list_ex (labelled u (str ''cabinet'')) (headerRow0 rd)"
    then have "\<not> cabinetInArea u dt rd selected"
      by (auto simp: cabinetInArea_def dest: firstLabelled_list_ex)
    with a False show ?thesis by (simp add: cabinets_def h)
  next
    assume "\<exists>k. findIndex u (str ''cabinet'') (headerRow0 rd) = Inr (Some k) \<and>
              firstLabelled u (str ''cabinet'') (headerRow0 rd) k \<and>
              list_ex (labelled u (str ''cabinet'')) (headerRow0 rd)"
    then obtain c where c: "findIndex u (str ''cabinet'') (headerRow0 rd) = Inr (Some c)"
      "firstLabelled u (str ''cabinet'') (headerRow0 rd) c"
      "list_ex (labelled u (str ''cabinet'')) (headerRow0 rd)" by blast
    show ?thesis
    proof (cases ai)
      case None
      with ai long have "\<not> list_ex (labelled u (str ''area'')) (headerRow0 rd)"
        by (auto simp: facetEnabled_def split: if_splits)
      then have "\<not> cabinetInArea u dt rd selected"
        by (auto simp: cabinetInArea_def dest: firstLabelled_list_ex)
      with None c False show ?thesis by (simp add: cabinets_def h)
    next
      case (Some a)
      with ai have a: "firstLabelled u (str ''area'') (headerRow0 rd) a"
        by (auto split: if_splits)
      show ?thesis
      proof (cases "selected = str ''All''")
        case True
        with Some c False show ?thesis by (simp add: cabinets_def h)
      next
        case sel: False
        let ?rows = "filter (\<lambda>r. cellAt r a = Some selected) (drop (headerRowCount dt) rd)"
        let ?us = "uniqueOf (filterBoolean (map (\<lambda>r. cellAt r c) ?rows))"
        from Some c(1) sel False
        have cab: "cabinets u dt (Some rd) selected ai
                     = Inr (if ?us \<noteq> [] then str ''All'' # ?us else [], Some c)"
          by (simp add: cabinets_def h Let_def)
        have "?us \<noteq> [] \<longleftrightarrow> set ?us \<noteq> {}" by simp
        also have "\<dots> \<longleftrightarrow> (\<exists>r\<in>set (drop (headerRowCount dt) rd).
                        cellAt r a = Some selected \<and> (\<exists>s. cellAt r c = Some s \<and> s \<noteq> []))"
          unfolding column_options_set by auto
        also have "\<dots> \<longleftrightarrow> cabinetInArea u dt rd selected"
        proof
          assume "\<exists>r\<in>set (drop (headerRowCount dt) rd).
                    cellAt r a = Some selected \<and> (\<exists>s. cellAt r c = Some s \<and> s \<noteq> [])"
          with a c(2) show "cabinetInArea u dt rd selected"
            unfolding cabinetInArea_def list_ex_iff by blast
        next
          assume "cabinetInArea u dt rd selected"
          then obtain a' c' where ac: "firstLabelled u (str ''area'') (headerRow0 rd) a'"
            "firstLabelled u (str ''cabinet'') (headerRow0 rd) c'"
            "\<exists>r\<in>set (drop (headerRowCount dt) rd).
               cellAt r a' = Some selected \<and> (\<exists>s. cellAt r c' = Some s \<and> s \<noteq> [])"
            unfolding cabinetInArea_def list_ex_iff by blast
          from firstLabelled_unique [OF ac(1) a] firstLabelled_unique [OF ac(2) c(2)] ac(3)
          show "\<exists>r\<in>set (drop (headerRowCount dt) rd).
                  cellAt r a = Some selected \<and> (\<exists>s. cellAt r c = Some s \<and> s \<noteq> [])"
            by simp
        qed
        finally have ne: "?us \<noteq> [] \<longleftrightarrow> cabinetInArea u dt rd selected" .
        have "distinct (str ''All'' # ?us)" if "\<not> allInColumn u (str ''cabinet'') dt rd"
          using that all_option_allInColumn [OF c(2), of ?rows dt]
          by (intro All_options) (auto simp: distinct_uniqueOf)
        with cab ne eq long sel c(3) show ?thesis
          by (simp add: startsWithAll_def)
      qed
    qed
  qed
qed

section \<open>The recomputation as a whole\<close>

lemma recompute_Inr:
  "reorderedData u (isEquipmentView dt) d = Inr rd \<Longrightarrow> types u dt rd = Inr (topts, ti) \<Longrightarrow>
   areas u dt rd = Inr (aopts, ai) \<Longrightarrow> cabinets u dt rd sA ai = Inr (copts, ci) \<Longrightarrow>
   recompute u dt d sT sA sC st =
     Inr \<lparr> viewReordered = rd, viewTypes = topts, viewTypeIndex = ti,
           viewAreas = aopts, viewAreaIndex = ai,
           viewCabinets = copts, viewCabinetIndex = ci,
           viewRows = filteredBodyRows u dt rd sT sA sC st ti ai ci,
           viewColumns = visibleEquipmentColumns u dt
                           (filteredBodyRows u dt rd sT sA sC st ti ai ci) rd st \<rparr>"
  by (simp add: recompute_def Let_def)

text \<open>
  What one render yields on a grid of strings: the reordered grid \<open>rd\<close>, which has as many
  rows as the grid and the same cells in header row 0, and the results of the three memos.
\<close>

lemma recompute_wellFormed:
  assumes "wellFormed g"
  shows "\<exists>rd topts ti aopts ai copts ci.
           recompute u dt (Some g) sT sA sC st =
             Inr \<lparr> viewReordered = Some rd, viewTypes = topts, viewTypeIndex = ti,
                   viewAreas = aopts, viewAreaIndex = ai,
                   viewCabinets = copts, viewCabinetIndex = ci,
                   viewRows = filteredBodyRows u dt (Some rd) sT sA sC st ti ai ci,
                   viewColumns = visibleEquipmentColumns u dt
                     (filteredBodyRows u dt (Some rd) sT sA sC st ti ai ci) (Some rd) st \<rparr> \<and>
           length rd = length g \<and> set (headerRow0 rd) = set (headerRow0 g) \<and>
           (if facetEnabled u (str ''type'') dt rd
            then startsWithAll topts else topts = [] \<and> ti = None) \<and>
           (\<not> allInColumn u (str ''type'') dt rd \<longrightarrow> distinct topts) \<and>
           (if facetEnabled u (str ''area'') dt rd
            then startsWithAll aopts else aopts = [] \<and> ai = None) \<and>
           (\<not> allInColumn u (str ''area'') dt rd \<longrightarrow> distinct aopts) \<and>
           (if isEquipmentView dt \<and> headerRowCount dt + 1 \<le> length rd \<and>
               sA \<noteq> str ''All'' \<and> cabinetInArea u dt rd sA
            then startsWithAll copts else copts = []) \<and>
           (\<not> allInColumn u (str ''cabinet'') dt rd \<longrightarrow> distinct copts) \<and>
           (\<not> list_ex (labelled u (str ''cabinet'')) (headerRow0 rd) \<longrightarrow> copts = [] \<and> ci = None)"
proof -
  from reorderedData_wellFormed [OF assms] obtain rd
    where rd: "reorderedData u (isEquipmentView dt) (Some g) = Inr (Some rd)"
      "length rd = length g" "allStrings (headerRow0 rd)"
      "set (headerRow0 rd) = set (headerRow0 g)" by blast
  from types_exact [OF rd(3), of u dt] obtain topts ti
    where t: "types u dt (Some rd) = Inr (topts, ti)"
      "if facetEnabled u (str ''type'') dt rd
       then startsWithAll topts else topts = [] \<and> ti = None"
      "\<not> allInColumn u (str ''type'') dt rd \<longrightarrow> distinct topts"
    by (auto split: if_splits)
  from areas_exact [OF rd(3), of u dt] obtain aopts ai
    where a: "areas u dt (Some rd) = Inr (aopts, ai)"
      "if facetEnabled u (str ''area'') dt rd
       then startsWithAll aopts \<and> (\<exists>k. ai = Some k \<and> firstLabelled u (str ''area'') (headerRow0 rd) k)
       else aopts = [] \<and> ai = None"
      "\<not> allInColumn u (str ''area'') dt rd \<longrightarrow> distinct aopts"
    by blast
  from a(2) have ai: "if facetEnabled u (str ''area'') dt rd
             then \<exists>k. ai = Some k \<and> firstLabelled u (str ''area'') (headerRow0 rd) k
             else ai = None"
    by (auto split: if_splits)
  from a(2) have a2: "if facetEnabled u (str ''area'') dt rd
            then startsWithAll aopts else aopts = [] \<and> ai = None"
    by (auto split: if_splits)
  from cabinets_exact [OF rd(3) ai, of sA] obtain copts ci
    where c: "cabinets u dt (Some rd) sA ai = Inr (copts, ci)"
      "if isEquipmentView dt \<and> headerRowCount dt + 1 \<le> length rd \<and>
               sA \<noteq> str ''All'' \<and> cabinetInArea u dt rd sA
            then startsWithAll copts else copts = []"
      "\<not> allInColumn u (str ''cabinet'') dt rd \<longrightarrow> distinct copts"
      "\<not> list_ex (labelled u (str ''cabinet'')) (headerRow0 rd) \<longrightarrow> copts = [] \<and> ci = None"
    by blast
  from recompute_Inr [OF rd(1) t(1) a(1) c(1), of sT sC st] rd(2,4) t(2,3) a2 a(3) c(2,3,4)
  show ?thesis by blast
qed

lemma absent_not_enabled:
  "\<not> list_ex (labelled u l) (headerRow0 rd) \<Longrightarrow> \<not> facetEnabled u l dt rd"
  by (simp add: facetEnabled_def)

lemma short_not_enabled:
  "length rd < headerRowCount dt + 1 \<Longrightarrow> \<not> facetEnabled u l dt rd"
  by (simp add: facetEnabled_def)

text \<open>
  Claim C10. A grid with fewer than \<open>headerRowCount + 1\<close> rows has no data row, and all three
  facet option lists are then empty (not the one-element list \<open>All\<close>).
\<close>

theorem facets_empty_without_data_rows:
  assumes "wellFormed g" and "length g < headerRowCount dt + 1"
  shows "\<exists>v. recompute u dt (Some g) sT sA sC st = Inr v \<and>
           viewTypes v = [] \<and> viewAreas v = [] \<and> viewCabinets v = []"
proof -
  from recompute_wellFormed [OF assms(1), of u dt sT sA sC st] obtain rd topts ti aopts ai copts ci
    where v: "recompute u dt (Some g) sT sA sC st =
             Inr \<lparr> viewReordered = Some rd, viewTypes = topts, viewTypeIndex = ti,
                   viewAreas = aopts, viewAreaIndex = ai,
                   viewCabinets = copts, viewCabinetIndex = ci,
                   viewRows = filteredBodyRows u dt (Some rd) sT sA sC st ti ai ci,
                   viewColumns = visibleEquipmentColumns u dt
                     (filteredBodyRows u dt (Some rd) sT sA sC st ti ai ci) (Some rd) st \<rparr>"
      and len: "length rd = length g"
      and t: "if facetEnabled u (str ''type'') dt rd
              then startsWithAll topts else topts = [] \<and> ti = None"
      and a: "if facetEnabled u (str ''area'') dt rd
              then startsWithAll aopts else aopts = [] \<and> ai = None"
      and c: "if isEquipmentView dt \<and> headerRowCount dt + 1 \<le> length rd \<and>
               sA \<noteq> str ''All'' \<and> cabinetInArea u dt rd sA
            then startsWithAll copts else copts = []"
    by blast
  from len assms(2) have short: "length rd < headerRowCount dt + 1" by simp
  from t a short_not_enabled [OF short] have "topts = []" "aopts = []" by simp_all
  moreover from c short have "copts = []" by simp
  ultimately show ?thesis using v by simp
qed

theorem facets_empty_without_data_rows_witness:
  "wellFormed [[Some (str ''Area''), Some (str ''Cabinet''), Some (str ''Type'')],
               [Some (str ''a'')], [Some (str ''b'')], [Some (str ''c'')]]
   \<and> length [[Some (str ''Area''), Some (str ''Cabinet''), Some (str ''Type'')],
              [Some (str ''a'')], [Some (str ''b'')], [Some (str ''c'')]]
       < headerRowCount Equipment + 1
   \<and> (\<exists>v. recompute asciiFold Equipment
             (Some [[Some (str ''Area''), Some (str ''Cabinet''), Some (str ''Type'')],
                    [Some (str ''a'')], [Some (str ''b'')], [Some (str ''c'')]])
             (str ''All'') (str ''North'') (str ''All'') [] = Inr v \<and>
           viewTypes v = [] \<and> viewAreas v = [] \<and> viewCabinets v = [])"
proof -
  let ?g = "[[Some (str ''Area''), Some (str ''Cabinet''), Some (str ''Type'')],
             [Some (str ''a'')], [Some (str ''b'')], [Some (str ''c'')]]"
  have w: "wellFormed ?g" by (simp add: wellFormed_def allStrings_def)
  have "headerRowCount Equipment = 4" by code_simp
  then have l: "length ?g < headerRowCount Equipment + 1" by simp
  from facets_empty_without_data_rows
    [OF w l, of asciiFold "str ''All''" "str ''North''" "str ''All''" "[]"] w l
  show ?thesis by blast
qed

text \<open>
  Claim C4, as amended. For every grid of strings and every filter state the recomputation
  succeeds, and each facet option list starts with \<open>All\<close> when its facet has options, and
  is empty otherwise. The types and the areas have options when there is a data row and
  header row 0 has the column; the cabinets when moreover the view is the equipment view,
  an area other than \<open>All\<close> is selected, the area column is there too, and a data row of
  the selected area has a cabinet cell that is not empty. A list has no duplicates when no
  data row holds the very string \<open>All\<close> in the column of the facet.
\<close>

theorem facet_options:
  assumes "wellFormed g"
  shows "\<exists>v rd. recompute u dt (Some g) sT sA sC st = Inr v \<and> viewReordered v = Some rd \<and>
           (if facetEnabled u (str ''type'') dt rd
            then startsWithAll (viewTypes v) else viewTypes v = []) \<and>
           (if facetEnabled u (str ''area'') dt rd
            then startsWithAll (viewAreas v) else viewAreas v = []) \<and>
           (if isEquipmentView dt \<and> headerRowCount dt + 1 \<le> length rd \<and>
               sA \<noteq> str ''All'' \<and> cabinetInArea u dt rd sA
            then startsWithAll (viewCabinets v) else viewCabinets v = []) \<and>
           (\<not> allInColumn u (str ''type'') dt rd \<longrightarrow> distinct (viewTypes v)) \<and>
           (\<not> allInColumn u (str ''area'') dt rd \<longrightarrow> distinct (viewAreas v)) \<and>
           (\<not> allInColumn u (str ''cabinet'') dt rd \<longrightarrow> distinct (viewCabinets v))"
proof -
  from recompute_wellFormed [OF assms, of u dt sT sA sC st] obtain rd topts ti aopts ai copts ci
    where v: "recompute u dt (Some g) sT sA sC st =
             Inr \<lparr> viewReordered = Some rd, viewTypes = topts, viewTypeIndex = ti,
                   viewAreas = aopts, viewAreaIndex = ai,
                   viewCabinets = copts, viewCabinetIndex = ci,
                   viewRows = filteredBodyRows u dt (Some rd) sT sA sC st ti ai ci,
                   viewColumns = visibleEquipmentColumns u dt
                     (filteredBodyRows u dt (Some rd) sT sA sC st ti ai ci) (Some rd) st \<rparr>"
      and t: "if facetEnabled u (str ''type'') dt rd
              then startsWithAll topts else topts = [] \<and> ti = None"
        "\<not> allInColumn u (str ''type'') dt rd \<longrightarrow> distinct topts"
      and a: "if facetEnabled u (str ''area'') dt rd
              then startsWithAll aopts else aopts = [] \<and> ai = None"
        "\<not> allInColumn u (str ''area'') dt rd \<longrightarrow> distinct aopts"
      and c: "if isEquipmentView dt \<and> headerRowCount dt + 1 \<le> length rd \<and>
               sA \<noteq> str ''All'' \<and> cabinetInArea u dt rd sA
            then startsWithAll copts else copts = []"
        "\<not> allInColumn u (str ''cabinet'') dt rd \<longrightarrow> distinct copts"
    by blast
  from t(1) have t1: "if facetEnabled u (str ''type'') dt rd
              then startsWithAll topts else topts = []" by (simp split: if_splits)
  from a(1) have a1: "if facetEnabled u (str ''area'') dt rd
              then startsWithAll aopts else aopts = []" by (simp split: if_splits)
  from v t1 t(2) a1 a(2) c show ?thesis by simp
qed

lemma allInColumn_cell:
  "allInColumn u l dt rd \<Longrightarrow>
     list_ex (\<lambda>r. Some (str ''All'') \<in> set r) (drop (headerRowCount dt) rd)"
  by (auto simp: allInColumn_def list_ex_iff cellAt_def split: if_splits)
     (metis nth_mem)

theorem facet_options_witness:
  "\<exists>v. recompute asciiFold Equipment
          (Some [[Some (str ''Area''), Some (str ''Cabinet''), Some (str ''Desc'')],
                 [Some [], Some [], Some []],
                 [Some [], Some [], Some []],
                 [Some [], Some [], Some []],
                 [Some (str ''North''), Some (str ''C1''), Some (str ''Valve'')],
                 [Some (str ''North''), Some (str ''C2''), Some (str ''Pump'')],
                 [Some (str ''North''), Some (str ''C1''), Some (str ''Fan'')],
                 [Some (str ''South''), Some (str ''C3''), Some (str ''Pump'')]])
          (str ''All'') (str ''North'') (str ''All'') [] = Inr v \<and>
        viewTypes v = [] \<and>
        viewAreas v = [str ''All'', str ''North'', str ''South''] \<and>
        viewCabinets v = [str ''All'', str ''C1'', str ''C2''] \<and>
        startsWithAll (viewAreas v) \<and> startsWithAll (viewCabinets v) \<and>
        distinct (viewAreas v) \<and> distinct (viewCabinets v)"
proof -
  let ?g = "[[Some (str ''Area''), Some (str ''Cabinet''), Some (str ''Desc'')],
             [Some [], Some [], Some []],
             [Some [], Some [], Some []],
             [Some [], Some [], Some []],
             [Some (str ''North''), Some (str ''C1''), Some (str ''Valve'')],
             [Some (str ''North''), Some (str ''C2''), Some (str ''Pump'')],
             [Some (str ''North''), Some (str ''C1''), Some (str ''Fan'')],
             [Some (str ''South''), Some (str ''C3''), Some (str ''Pump'')]]"
  have w: "wellFormed ?g" by (simp add: wellFormed_def allStrings_def)
  from facet_options [OF w, of asciiFold Equipment "str ''All''" "str ''North''" "str ''All''" "[]"]
  obtain v rd
    where v: "recompute asciiFold Equipment (Some ?g) (str ''All'') (str ''North'') (str ''All'') []
                = Inr v"
      and rd: "viewReordered v = Some rd"
      and t: "if facetEnabled asciiFold (str ''type'') Equipment rd
              then startsWithAll (viewTypes v) else viewTypes v = []"
      and a: "if facetEnabled asciiFold (str ''area'') Equipment rd
              then startsWithAll (viewAreas v) else viewAreas v = []"
      and c: "if isEquipmentView Equipment \<and> headerRowCount Equipment + 1 \<le> length rd \<and>
               str ''North'' \<noteq> str ''All'' \<and> cabinetInArea asciiFold Equipment rd (str ''North'')
            then startsWithAll (viewCabinets v) else viewCabinets v = []"
      and d: "\<not> allInColumn asciiFold (str ''area'') Equipment rd \<longrightarrow> distinct (viewAreas v)"
        "\<not> allInColumn asciiFold (str ''cabinet'') Equipment rd \<longrightarrow> distinct (viewCabinets v)"
    by blast
  have "(case recompute asciiFold Equipment (Some ?g) (str ''All'') (str ''North'') (str ''All'') [] of
           Inl e \<Rightarrow> False
         | Inr w \<Rightarrow> viewReordered w = Some ?g \<and>
                    viewAreas w = [str ''All'', str ''North'', str ''South''] \<and>
                    viewCabinets w = [str ''All'', str ''C1'', str ''C2''])"
    by code_simp
  with v rd have g: "rd = ?g"
    and lists: "viewAreas v = [str ''All'', str ''North'', str ''South'']"
      "viewCabinets v = [str ''All'', str ''C1'', str ''C2'']"
    by simp_all
  have "\<not> facetEnabled asciiFold (str ''type'') Equipment ?g"
    "facetEnabled asciiFold (str ''area'') Equipment ?g"
    by code_simp+
  with t a g have ta: "viewTypes v = []" "startsWithAll (viewAreas v)" by simp_all
  have hrc: "headerRowCount Equipment = 4" and eq: "isEquipmentView Equipment"
    and ne: "str ''North'' \<noteq> str ''All''"
    by code_simp+
  have l: "labelled asciiFold (str ''area'') (Some (str ''Area''))"
    "labelled asciiFold (str ''cabinet'') (Some (str ''Cabinet''))"
    "\<not> labelled asciiFold (str ''cabinet'') (Some (str ''Area''))"
    by code_simp+
  have "firstLabelled asciiFold (str ''area'') (headerRow0 ?g) 0"
    "firstLabelled asciiFold (str ''cabinet'') (headerRow0 ?g) 1"
    using l by (simp_all add: firstLabelled_def headerRow0_def)
  moreover have "str ''C1'' \<noteq> []" by (simp add: str_def)
  ultimately have "cabinetInArea asciiFold Equipment ?g (str ''North'')"
    unfolding cabinetInArea_def hrc
    by (intro exI [of _ 0] exI [of _ 1]) (simp add: cellAt_def)
  with c g hrc eq ne have cs: "startsWithAll (viewCabinets v)" by simp
  have "\<not> list_ex (\<lambda>r. Some (str ''All'') \<in> set r) (drop (headerRowCount Equipment) ?g)"
    by code_simp
  then have "\<not> allInColumn asciiFold (str ''area'') Equipment ?g"
    "\<not> allInColumn asciiFold (str ''cabinet'') Equipment ?g"
    by (auto dest: allInColumn_cell)
  with d g have ds: "distinct (viewAreas v)" "distinct (viewCabinets v)" by simp_all
  from v ta cs ds lists show ?thesis by blast
qed

text \<open>
  Claim C4 as stated fails twice: a facet without its column (or, for the cabinets, without
  a selected area) has the empty option list, which does not start with \<open>All\<close>; and a
  data cell that is itself \<open>All\<close> is listed after the leading \<open>All\<close>. The strings of the
  two grids are ASCII, so that the lowering plays no part.
\<close>

theorem facet_options_counterexample:
  "(case recompute asciiFold Stock (Some [[Some (str ''Name'')], [Some (str ''Pump'')]])
           (str ''All'') (str ''All'') (str ''All'') [] of
      Inl e \<Rightarrow> False
    | Inr v \<Rightarrow> \<not> startsWithAll (viewTypes v) \<and> \<not> startsWithAll (viewAreas v) \<and>
               \<not> startsWithAll (viewCabinets v)) \<and>
   (case recompute asciiFold Stock
           (Some [[Some (str ''Type'')], [Some (str ''All'')], [Some (str ''Pump'')]])
           (str ''All'') (str ''All'') (str ''All'') [] of
      Inl e \<Rightarrow> False
    | Inr v \<Rightarrow> \<not> distinct (viewTypes v))"
  by code_simp

text \<open>
  Claim C9. On every grid of strings the recomputation returns a view (no exception). When
  header row 0 has no cell labelled \<open>type\<close> (or \<open>area\<close>, or \<open>cabinet\<close>), the option list of
  that facet is empty, the memo gives no column index, the pass of that facet returns any
  rows unchanged, and the visible rows are the data rows of the reordered grid filtered by
  the other passes only.
\<close>

theorem recompute_total:
  assumes "wellFormed g"
  shows "\<exists>v rd. recompute u dt (Some g) sT sA sC st = Inr v \<and> viewReordered v = Some rd \<and>
           (\<not> list_ex (labelled u (str ''type'')) (headerRow0 g) \<longrightarrow>
              viewTypes v = [] \<and> viewTypeIndex v = None \<and>
              (\<forall>rows. typePass dt sT (viewTypeIndex v) rows = rows) \<and>
              viewRows v = nonEmptyPass dt (searchPass u dt st
                             (cabinetPass dt sC (viewCabinetIndex v)
                                (areaPass sA (viewAreaIndex v) (drop (headerRowCount dt) rd))))) \<and>
           (\<not> list_ex (labelled u (str ''area'')) (headerRow0 g) \<longrightarrow>
              viewAreas v = [] \<and> viewAreaIndex v = None \<and>
              (\<forall>rows. areaPass sA (viewAreaIndex v) rows = rows) \<and>
              viewRows v = nonEmptyPass dt (searchPass u dt st
                             (cabinetPass dt sC (viewCabinetIndex v)
                                (typePass dt sT (viewTypeIndex v) (drop (headerRowCount dt) rd))))) \<and>
           (\<not> list_ex (labelled u (str ''cabinet'')) (headerRow0 g) \<longrightarrow>
              viewCabinets v = [] \<and> viewCabinetIndex v = None \<and>
              (\<forall>rows. cabinetPass dt sC (viewCabinetIndex v) rows = rows) \<and>
              viewRows v = nonEmptyPass dt (searchPass u dt st
                             (areaPass sA (viewAreaIndex v)
                                (typePass dt sT (viewTypeIndex v) (drop (headerRowCount dt) rd)))))"
proof -
  from recompute_wellFormed [OF assms, of u dt sT sA sC st] obtain rd topts ti aopts ai copts ci
    where v: "recompute u dt (Some g) sT sA sC st =
             Inr \<lparr> viewReordered = Some rd, viewTypes = topts, viewTypeIndex = ti,
                   viewAreas = aopts, viewAreaIndex = ai,
                   viewCabinets = copts, viewCabinetIndex = ci,
                   viewRows = filteredBodyRows u dt (Some rd) sT sA sC st ti ai ci,
                   viewColumns = visibleEquipmentColumns u dt
                     (filteredBodyRows u dt (Some rd) sT sA sC st ti ai ci) (Some rd) st \<rparr>"
      and h: "set (headerRow0 rd) = set (headerRow0 g)"
      and t: "if facetEnabled u (str ''type'') dt rd
              then startsWithAll topts else topts = [] \<and> ti = None"
      and a: "if facetEnabled u (str ''area'') dt rd
              then startsWithAll aopts else aopts = [] \<and> ai = None"
      and c: "\<not> list_ex (labelled u (str ''cabinet'')) (headerRow0 rd) \<longrightarrow> copts = [] \<and> ci = None"
    by blast
  let ?v = "\<lparr> viewReordered = Some rd, viewTypes = topts, viewTypeIndex = ti,
                   viewAreas = aopts, viewAreaIndex = ai,
                   viewCabinets = copts, viewCabinetIndex = ci,
                   viewRows = filteredBodyRows u dt (Some rd) sT sA sC st ti ai ci,
                   viewColumns = visibleEquipmentColumns u dt
                     (filteredBodyRows u dt (Some rd) sT sA sC st ti ai ci) (Some rd) st \<rparr>"
  note ex = list_ex_labelled_set [OF h]
  have rows: "viewRows ?v = nonEmptyPass dt (searchPass u dt st
                 (cabinetPass dt sC ci (areaPass sA ai (typePass dt sT ti
                    (drop (headerRowCount dt) rd)))))"
    by (simp add: filteredBodyRows_def Let_def)
  have tp: "viewTypes ?v = [] \<and> viewTypeIndex ?v = None \<and>
              (\<forall>rows. typePass dt sT (viewTypeIndex ?v) rows = rows) \<and>
              viewRows ?v = nonEmptyPass dt (searchPass u dt st
                             (cabinetPass dt sC (viewCabinetIndex ?v)
                                (areaPass sA (viewAreaIndex ?v) (drop (headerRowCount dt) rd))))"
    if "\<not> list_ex (labelled u (str ''type'')) (headerRow0 g)"
  proof -
    from that ex have "\<not> facetEnabled u (str ''type'') dt rd" by (simp add: absent_not_enabled)
    with t have "topts = []" "ti = None" by simp_all
    with rows show ?thesis by (simp add: typePass_def)
  qed
  have ap: "viewAreas ?v = [] \<and> viewAreaIndex ?v = None \<and>
              (\<forall>rows. areaPass sA (viewAreaIndex ?v) rows = rows) \<and>
              viewRows ?v = nonEmptyPass dt (searchPass u dt st
                             (cabinetPass dt sC (viewCabinetIndex ?v)
                                (typePass dt sT (viewTypeIndex ?v) (drop (headerRowCount dt) rd))))"
    if "\<not> list_ex (labelled u (str ''area'')) (headerRow0 g)"
  proof -
    from that ex have "\<not> facetEnabled u (str ''area'') dt rd" by (simp add: absent_not_enabled)
    with a have "aopts = []" "ai = None" by simp_all
    with rows show ?thesis by (simp add: areaPass_def)
  qed
  have cp: "viewCabinets ?v = [] \<and> viewCabinetIndex ?v = None \<and>
              (\<forall>rows. cabinetPass dt sC (viewCabinetIndex ?v) rows = rows) \<and>
              viewRows ?v = nonEmptyPass dt (searchPass u dt st
                             (areaPass sA (viewAreaIndex ?v)
                                (typePass dt sT (viewTypeIndex ?v) (drop (headerRowCount dt) rd))))"
    if "\<not> list_ex (labelled u (str ''cabinet'')) (headerRow0 g)"
  proof -
    from that ex c have "copts = []" "ci = None" by simp_all
    with rows show ?thesis by (simp add: cabinetPass_def)
  qed
  have r: "viewReordered ?v = Some rd" by simp
  from v r tp ap cp show ?thesis by blast
qed

theorem recompute_total_witness:
  "\<exists>v. recompute asciiFold Stock
          (Some [[Some (str ''Name''), Some (str ''Qty'')],
                 [Some (str ''Pump''), Some (str ''2'')],
                 [Some (str ''Valve''), Some (str ''0'')]])
          (str ''Valve'') (str ''All'') (str ''All'') [] = Inr v \<and>
        viewTypes v = [] \<and> viewTypeIndex v = None \<and>
        viewRows v = [[Some (str ''Pump''), Some (str ''2'')],
                      [Some (str ''Valve''), Some (str ''0'')]]"
proof -
  let ?g = "[[Some (str ''Name''), Some (str ''Qty'')],
             [Some (str ''Pump''), Some (str ''2'')],
             [Some (str ''Valve''), Some (str ''0'')]]"
  have w: "wellFormed ?g" by (simp add: wellFormed_def allStrings_def)
  have n: "\<not> list_ex (labelled asciiFold (str ''type'')) (headerRow0 ?g)" by code_simp
  from recompute_total [OF w, of asciiFold Stock "str ''Valve''" "str ''All''" "str ''All''" "[]"] n
  obtain v
    where v: "recompute asciiFold Stock (Some ?g) (str ''Valve'') (str ''All'') (str ''All'') []
                = Inr v"
      "viewTypes v = []" "viewTypeIndex v = None" by blast
  have "(case recompute asciiFold Stock (Some ?g) (str ''Valve'') (str ''All'') (str ''All'') [] of
           Inl e \<Rightarrow> False
         | Inr w \<Rightarrow> viewRows w = [[Some (str ''Pump''), Some (str ''2'')],
                                  [Some (str ''Valve''), Some (str ''0'')]])"
    by code_simp
  with v(1) have "viewRows v = [[Some (str ''Pump''), Some (str ''2'')],
                                [Some (str ''Valve''), Some (str ''0'')]]" by simp
  with v show ?thesis by blast
qed

section \<open>Text search and column visibility\<close>

lemma toLowerCase_Nil_iff: "toLowerCase u s = [] \<longleftrightarrow> s = []"
  by (auto simp: toLowerCase_def)

lemma toLowerCase_Nil: "toLowerCase u [] = []"
  by (simp add: toLowerCase_Nil_iff)

lemma cellIncludes_iff:
  "t \<noteq> [] \<Longrightarrow> cellIncludes u (toLowerCase u t) c = (\<exists>s. c = Some s \<and> containsIgnoreCase u s t)"
  by (cases c) (auto simp: cellIncludes_def containsIgnoreCase_def includesStr_def
      toLowerCase_Nil toLowerCase_Nil_iff)

lemma containsIgnoreCase_Nil: "containsIgnoreCase u s []"
  by (simp add: containsIgnoreCase_def includesStr_def toLowerCase_Nil)

text \<open>
  Claim C6. The text search pass keeps the rows as they are in the equipment view. In the
  other views it keeps exactly the rows with a cell that contains the search term, case
  ignored. (With the empty search term the pass is skipped, which agrees with this for
  every row that has a cell.)
\<close>

theorem text_search_pass:
  "(isEquipmentView dt \<longrightarrow> searchPass u dt st rows = rows) \<and>
   (\<not> isEquipmentView dt \<and> (st \<noteq> [] \<or> (\<forall>r\<in>set rows. \<exists>s. Some s \<in> set r)) \<longrightarrow>
      searchPass u dt st rows =
        filter (\<lambda>r. \<exists>s. Some s \<in> set r \<and> containsIgnoreCase u s st) rows)"
proof (intro conjI impI)
  assume "isEquipmentView dt"
  then show "searchPass u dt st rows = rows" by (simp add: searchPass_def Let_def)
next
  assume a: "\<not> isEquipmentView dt \<and> (st \<noteq> [] \<or> (\<forall>r\<in>set rows. \<exists>s. Some s \<in> set r))"
  show "searchPass u dt st rows = filter (\<lambda>r. \<exists>s. Some s \<in> set r \<and> containsIgnoreCase u s st) rows"
  proof (cases "st = []")
    case True
    with a have "\<forall>r\<in>set rows. \<exists>s. Some s \<in> set r \<and> containsIgnoreCase u s st"
      by (auto simp: containsIgnoreCase_Nil)
    then have "filter (\<lambda>r. \<exists>s. Some s \<in> set r \<and> containsIgnoreCase u s st) rows = rows"
      by (simp add: filter_id_conv)
    with True show ?thesis by (simp add: searchPass_def)
  next
    case False
    then have "list_ex (cellIncludes u (toLowerCase u st))
                 = (\<lambda>r. \<exists>s. Some s \<in> set r \<and> containsIgnoreCase u s st)"
      by (auto simp: list_ex_iff cellIncludes_iff fun_eq_iff)
    with False a show ?thesis by (simp add: searchPass_def Let_def)
  qed
qed

theorem text_search_pass_witness:
  "searchPass asciiFold Stock (str ''PUMP'')
     [[Some (str ''North''), Some (str ''C1''), Some (str ''Valve''), Some (str ''0'')],
      [Some (str ''South''), Some (str ''C2''), Some (str ''Pump''), Some (str ''2'')]]
   = [[Some (str ''South''), Some (str ''C2''), Some (str ''Pump''), Some (str ''2'')]]
   \<and> searchPass asciiFold Equipment (str ''PUMP'')
     [[Some (str ''North''), Some (str ''C1''), Some (str ''Valve''), Some (str ''0'')],
      [Some (str ''South''), Some (str ''C2''), Some (str ''Pump''), Some (str ''2'')]]
   = [[Some (str ''North''), Some (str ''C1''), Some (str ''Valve''), Some (str ''0'')],
      [Some (str ''South''), Some (str ''C2''), Some (str ''Pump''), Some (str ''2'')]]"
proof -
  let ?rows = "[[Some (str ''North''), Some (str ''C1''), Some (str ''Valve''), Some (str ''0'')],
      [Some (str ''South''), Some (str ''C2''), Some (str ''Pump''), Some (str ''2'')]]"
  have eq: "isEquipmentView Equipment" and ns: "\<not> isEquipmentView Stock"
    and st: "str ''PUMP'' \<noteq> []"
    by code_simp+
  have c: "containsIgnoreCase asciiFold (str ''Pump'') (str ''PUMP'')"
    "\<not> containsIgnoreCase asciiFold (str ''North'') (str ''PUMP'')"
    "\<not> containsIgnoreCase asciiFold (str ''South'') (str ''PUMP'')"
    "\<not> containsIgnoreCase asciiFold (str ''C1'') (str ''PUMP'')"
    "\<not> containsIgnoreCase asciiFold (str ''C2'') (str ''PUMP'')"
    "\<not> containsIgnoreCase asciiFold (str ''Valve'') (str ''PUMP'')"
    "\<not> containsIgnoreCase asciiFold (str ''0'') (str ''PUMP'')"
    "\<not> containsIgnoreCase asciiFold (str ''2'') (str ''PUMP'')"
    by code_simp+
  from text_search_pass [of Equipment asciiFold "str ''PUMP''" ?rows, THEN conjunct1] eq
  have 1: "searchPass asciiFold Equipment (str ''PUMP'') ?rows = ?rows" by simp
  from text_search_pass [of Stock asciiFold "str ''PUMP''" ?rows, THEN conjunct2] ns st
  have "searchPass asciiFold Stock (str ''PUMP'') ?rows
          = filter (\<lambda>r. \<exists>s. Some s \<in> set r \<and> containsIgnoreCase asciiFold s (str ''PUMP'')) ?rows"
    by simp
  also have "\<dots> = [[Some (str ''South''), Some (str ''C2''), Some (str ''Pump''), Some (str ''2'')]]"
    using c by auto
  finally show ?thesis using 1 by simp
qed

lemma visibleLoop_mem:
  "k \<in> visibleLoop u colIndex totalColumns h rows st acc \<longleftrightarrow>
     k \<in> acc \<or> (colIndex \<le> k \<and> k < totalColumns \<and>
       (if st \<noteq> [] then cellIncludes u (toLowerCase u st) (cellAt h k)
        else list_ex (positiveAt k) rows))"
proof (induction u colIndex totalColumns h rows st acc rule: visibleLoop.induct)
  case (1 u colIndex totalColumns h rows st acc)
  show ?case
  proof (cases "colIndex < totalColumns")
    case False
    then show ?thesis by (subst visibleLoop.simps) auto
  next
    case True
    have le: "colIndex \<le> k \<longleftrightarrow> colIndex = k \<or> Suc colIndex \<le> k" by auto
    from True show ?thesis
      by (subst visibleLoop.simps) (simp only: if_True "1.IH" [OF True], auto simp: le)
  qed
qed

lemma positiveAt_iff:
  "positiveAt k r = (\<exists>n. parseInt10 (cellAt r k) = Some n \<and> 0 < n)"
  by (simp add: positiveAt_def split: option.splits)

lemma cellAt_beyond: "length r \<le> k \<Longrightarrow> cellAt r k = None"
  by (simp add: cellAt_def)

lemma parseInt10_None: "parseInt10 None = None"
  by (simp add: parseInt10_def)

text \<open>
  Claim C3. In the equipment view with visible rows, a column from index 3 on is in the set
  of visible columns exactly when, with a search term, its label in header row 0 contains
  the term (case ignored), whatever the rows hold; and, without one, when some visible row
  has in that column a cell that \<open>parseInt\<close> reads as an integer greater than zero. Without
  a search term no row is taken to be longer than header row 0.
\<close>

theorem visible_columns:
  assumes "isEquipmentView dt" and "bodyRows \<noteq> []" and "3 \<le> col"
    and "st = [] \<longrightarrow> (\<forall>r\<in>set bodyRows. length r \<le> length (headerRow0 rd))"
  shows "\<exists>S. visibleEquipmentColumns u dt bodyRows (Some rd) st = Some S \<and>
           (col \<in> S \<longleftrightarrow>
              (if st \<noteq> []
               then (\<exists>h. cellAt (headerRow0 rd) col = Some h \<and> containsIgnoreCase u h st)
               else (\<exists>r\<in>set bodyRows. \<exists>n. parseInt10 (cellAt r col) = Some n \<and> 0 < n)))"
proof -
  let ?h = "headerRow0 rd"
  let ?S = "visibleLoop u 3 (length ?h) ?h bodyRows st (insert 2 (insert 1 (insert 0 {})))"
  from assms(1,2) have S: "visibleEquipmentColumns u dt bodyRows (Some rd) st = Some ?S"
    by (simp add: visibleEquipmentColumns_def headerRow0_def Let_def)
  from assms(3) have mem: "col \<in> ?S \<longleftrightarrow> col < length ?h \<and>
       (if st \<noteq> [] then cellIncludes u (toLowerCase u st) (cellAt ?h col)
        else list_ex (positiveAt col) bodyRows)"
    by (subst visibleLoop_mem) auto
  have "col \<in> ?S \<longleftrightarrow>
          (if st \<noteq> []
           then (\<exists>h. cellAt ?h col = Some h \<and> containsIgnoreCase u h st)
           else (\<exists>r\<in>set bodyRows. \<exists>n. parseInt10 (cellAt r col) = Some n \<and> 0 < n))"
  proof (cases "st = []")
    case False
    have "cellAt ?h col = Some h \<Longrightarrow> col < length ?h" for h
      by (auto simp: cellAt_def split: if_splits)
    with False show ?thesis
      unfolding mem by (auto simp: cellIncludes_iff)
  next
    case True
    with assms(4) have short: "\<forall>r\<in>set bodyRows. length r \<le> length ?h" by simp
    have "col < length ?h" if "r \<in> set bodyRows" "parseInt10 (cellAt r col) = Some n" for r n
    proof (rule ccontr)
      assume "\<not> col < length ?h"
      with short that(1) have "length r \<le> col" by fastforce
      with that(2) show False by (simp add: cellAt_beyond parseInt10_None)
    qed
    with True show ?thesis
      unfolding mem by (auto simp: list_ex_iff positiveAt_iff)
  qed
  with S show ?thesis by blast
qed

theorem visible_columns_witness:
  "(\<exists>S. visibleEquipmentColumns asciiFold Equipment
          [[Some (str ''North''), Some (str ''C1''), Some (str ''Valve''), Some (str ''0''),
            Some (0xA0 # str ''7 pcs'')],
           [Some (str ''South''), Some (str ''C2''), Some (str ''Pump''), Some (str ''-2''),
            Some (str ''x'')]]
          (Some [[Some (str ''Area''), Some (str ''Cabinet''), Some (str ''Desc''),
                  Some (str ''Slot1''), Some (str ''Slot2'')]])
          [] = Some S \<and> 4 \<in> S \<and> 3 \<notin> S) \<and>
   (\<exists>S. visibleEquipmentColumns asciiFold Equipment
          [[Some (str ''North''), Some (str ''C1''), Some (str ''Valve''), Some (str ''0''),
            Some (0xA0 # str ''7 pcs'')],
           [Some (str ''South''), Some (str ''C2''), Some (str ''Pump''), Some (str ''-2''),
            Some (str ''x'')]]
          (Some [[Some (str ''Area''), Some (str ''Cabinet''), Some (str ''Desc''),
                  Some (str ''Slot1''), Some (str ''Slot2'')]])
          (str ''SLOT1'') = Some S \<and> 3 \<in> S \<and> 4 \<notin> S)"
proof -
  let ?r1 = "[Some (str ''North''), Some (str ''C1''), Some (str ''Valve''), Some (str ''0''),
            Some (0xA0 # str ''7 pcs'')]"
  let ?r2 = "[Some (str ''South''), Some (str ''C2''), Some (str ''Pump''), Some (str ''-2''),
            Some (str ''x'')]"
  let ?rows = "[?r1, ?r2]"
  let ?rd = "[[Some (str ''Area''), Some (str ''Cabinet''), Some (str ''Desc''),
               Some (str ''Slot1''), Some (str ''Slot2'')]]"
  have e: "isEquipmentView Equipment" and st: "str ''SLOT1'' \<noteq> []" by code_simp+
  have ne: "?rows \<noteq> []" by simp
  have l: "[] = [] \<longrightarrow> (\<forall>r\<in>set ?rows. length r \<le> length (headerRow0 ?rd))"
    by (simp add: headerRow0_def)
  have l': "str ''SLOT1'' = [] \<longrightarrow> (\<forall>r\<in>set ?rows. length r \<le> length (headerRow0 ?rd))"
    using st by simp
  have p: "parseInt10 (cellAt ?r1 4) = Some 7" "parseInt10 (cellAt ?r2 4) = None"
    "parseInt10 (cellAt ?r1 3) = Some 0" "parseInt10 (cellAt ?r2 3) = Some (- 2)"
    by code_simp+
  have h: "cellAt (headerRow0 ?rd) 3 = Some (str ''Slot1'')"
    "cellAt (headerRow0 ?rd) 4 = Some (str ''Slot2'')"
    by (simp_all add: headerRow0_def cellAt_def)
  have c: "containsIgnoreCase asciiFold (str ''Slot1'') (str ''SLOT1'')"
    "\<not> containsIgnoreCase asciiFold (str ''Slot2'') (str ''SLOT1'')"
    by code_simp+
  \<comment> \<open>without a search term\<close>
  from visible_columns [OF e ne _ l, of 4 asciiFold]
  obtain S where S: "visibleEquipmentColumns asciiFold Equipment ?rows (Some ?rd) [] = Some S"
    "4 \<in> S \<longleftrightarrow> (\<exists>r\<in>set ?rows. \<exists>n. parseInt10 (cellAt r 4) = Some n \<and> 0 < n)"
    by auto
  from visible_columns [OF e ne _ l, of 3 asciiFold] S(1)
  have S3: "3 \<in> S \<longleftrightarrow> (\<exists>r\<in>set ?rows. \<exists>n. parseInt10 (cellAt r 3) = Some n \<and> 0 < n)"
    by auto
  from S(2) p have in4: "4 \<in> S" by simp
  from S3 p have out3: "3 \<notin> S" by simp
  \<comment> \<open>with the search term\<close>
  from visible_columns [OF e ne _ l', of 3 asciiFold] st
  obtain T where T: "visibleEquipmentColumns asciiFold Equipment ?rows (Some ?rd) (str ''SLOT1'')
                       = Some T"
    "3 \<in> T \<longleftrightarrow> (\<exists>h. cellAt (headerRow0 ?rd) 3 = Some h \<and>
                        containsIgnoreCase asciiFold h (str ''SLOT1''))"
    by auto
  from visible_columns [OF e ne _ l', of 4 asciiFold] st T(1)
  have T4: "4 \<in> T \<longleftrightarrow> (\<exists>h. cellAt (headerRow0 ?rd) 4 = Some h \<and>
                        containsIgnoreCase asciiFold h (str ''SLOT1''))"
    by auto
  from T(2) h c have in3: "3 \<in> T" by simp
  from T4 h c have out4: "4 \<notin> T" by simp
  from S(1) in4 out3 T(1) in3 out4 show ?thesis by blast
qed

section \<open>Selections, fetching and cancellation\<close>


lemma settle_filters:
  "selectedType (settle m i resp v) = selectedType v"
  "selectedArea (settle m i resp v) = selectedArea v"
  "selectedCabinet (settle m i resp v) = selectedCabinet v"
  "searchTerm (settle m i resp v) = searchTerm v"
  "area (settle m i resp v) = area v"
  "dataType (settle m i resp v) = dataType v"
  "liveEffect (settle m i resp v) = liveEffect v"
  "effectCount (settle m i resp v) = effectCount v"
  by (auto simp: settle_def finallyHandler_def catchHandler_def secondThen_def Let_def
      split: sum.splits prod.splits option.splits)

lemma settle_unmounted: "settle False i resp v = v"
  by (auto simp: settle_def finallyHandler_def catchHandler_def secondThen_def
      split: sum.splits prod.splits option.splits)

lemma settle_background_failed: "failed resp \<Longrightarrow> settle m False resp v = v"
  by (auto simp: failed_def settle_def finallyHandler_def catchHandler_def secondThen_def
      split: sum.splits prod.splits option.splits)

lemma step_Settle: "step (Settle e i resp) v = settle (liveEffect v = Some e) i resp v"
  by (cases "liveEffect v")
     (simp_all add: step_def Let_def selectedAreaEffect_def keyEffect_def settle_filters)

text \<open>
  Claim C5. Whenever an event changes the selected area, the selected cabinet is \<open>All\<close>
  afterwards; selecting a cabinet leaves the selected area as it is.
\<close>

theorem area_resets_cabinet:
  "(selectedArea (step ev v) \<noteq> selectedArea v \<longrightarrow> selectedCabinet (step ev v) = (str ''All'')) \<and>
   selectedArea (step (SetSelectedCabinet c) v) = selectedArea v"
proof
  show "selectedArea (step ev v) \<noteq> selectedArea v \<longrightarrow> selectedCabinet (step ev v) = (str ''All'')"
  proof (cases ev)
    case (Settle e i resp)
    then show ?thesis by (simp add: step_Settle settle_filters)
  qed (auto simp: step_def Let_def selectedAreaEffect_def keyEffect_def)
  show "selectedArea (step (SetSelectedCabinet c) v) = selectedArea v"
    by (simp add: step_def Let_def selectedAreaEffect_def keyEffect_def)
qed

theorem area_resets_cabinet_witness:
  "selectedArea (step (SetSelectedArea (str ''North'')) (step (SetSelectedCabinet (str ''C1''))
       (step (SetSelectedArea (str ''South'')) (mount PULP2 Equipment)))) = (str ''North'') \<and>
   selectedCabinet (step (SetSelectedCabinet (str ''C1''))
       (step (SetSelectedArea (str ''South'')) (mount PULP2 Equipment))) = (str ''C1'') \<and>
   selectedCabinet (step (SetSelectedArea (str ''North'')) (step (SetSelectedCabinet (str ''C1''))
       (step (SetSelectedArea (str ''South'')) (mount PULP2 Equipment)))) = (str ''All'')"
proof -
  let ?v = "step (SetSelectedCabinet (str ''C1'')) (step (SetSelectedArea (str ''South'')) (mount PULP2 Equipment))"
  have a: "selectedArea ?v = (str ''South'')" "selectedCabinet ?v = (str ''C1'')"
    by code_simp+
  have b: "selectedArea (step (SetSelectedArea (str ''North'')) ?v) = (str ''North'')"
    by code_simp
  have ne: "str ''North'' \<noteq> str ''South''"
    by code_simp
  with a b have "selectedArea (step (SetSelectedArea (str ''North'')) ?v) \<noteq> selectedArea ?v" by simp
  with area_resets_cabinet [of "SetSelectedArea (str ''North'')" ?v]
  have "selectedCabinet (step (SetSelectedArea (str ''North'')) ?v) = (str ''All'')" by blast
  with a b show ?thesis by simp
qed

text \<open>
  Claim C7. A failed background request (not the initial load) leaves the whole state as it
  was: the grid held stays, and no error is set. A failed initial load that comes back to
  its live effect sets the error and leaves the grid alone, and it is the only event after
  which an error is newly there.
\<close>

theorem background_failure_silent:
  "(failed resp \<longrightarrow> step (Settle e False resp) v = v) \<and>
   (failed resp \<and> liveEffect v = Some e \<longrightarrow>
      error (step (Settle e True resp) v) \<noteq> None \<and> data (step (Settle e True resp) v) = data v) \<and>
   (error (step ev v) \<noteq> None \<and> error (step ev v) \<noteq> error v \<longrightarrow>
      (\<exists>e' resp'. ev = Settle e' True resp' \<and> failed resp' \<and> liveEffect v = Some e'))"
proof -
  have 1: "step (Settle e False resp) v = v" if "failed resp"
    using that by (simp add: step_Settle settle_background_failed)
  have 2: "error (step (Settle e True resp) v) \<noteq> None \<and>
           data (step (Settle e True resp) v) = data v"
    if "failed resp \<and> liveEffect v = Some e"
    using that
    by (auto simp: step_Settle failed_def settle_def finallyHandler_def catchHandler_def
        secondThen_def split: sum.splits prod.splits option.splits)
  have 3: "\<exists>e' resp'. ev = Settle e' True resp' \<and> failed resp' \<and> liveEffect v = Some e'"
    if a: "error (step ev v) \<noteq> None \<and> error (step ev v) \<noteq> error v"
  proof (cases ev)
    case (Settle e' i resp')
    with a show ?thesis
      by (auto simp: step_Settle failed_def settle_def finallyHandler_def catchHandler_def
          secondThen_def Let_def split: sum.splits prod.splits option.splits if_splits)
  qed (use a in \<open>auto simp: step_def Let_def selectedAreaEffect_def keyEffect_def
         split: if_splits\<close>)
  from 1 2 3 show ?thesis by blast
qed

theorem background_failure_silent_witness:
  "failed (Http False 500 (Unparsable [])) \<and>
   data (run [Settle 0 True (Http True 200 (Parsed True (Some [[Some (str ''Name'')], [Some (str ''Pump'')]]) [])), Tick]
          (mount PULP2 Stock)) = Some [[Some (str ''Name'')], [Some (str ''Pump'')]] \<and>
   error (run [Settle 0 True (Http True 200 (Parsed True (Some [[Some (str ''Name'')], [Some (str ''Pump'')]]) [])), Tick]
          (mount PULP2 Stock)) = None \<and>
   step (Settle 0 False (Http False 500 (Unparsable [])))
     (run [Settle 0 True (Http True 200 (Parsed True (Some [[Some (str ''Name'')], [Some (str ''Pump'')]]) [])), Tick]
          (mount PULP2 Stock))
   = run [Settle 0 True (Http True 200 (Parsed True (Some [[Some (str ''Name'')], [Some (str ''Pump'')]]) [])), Tick]
          (mount PULP2 Stock)"
proof -
  let ?v = "run [Settle 0 True (Http True 200 (Parsed True (Some [[Some (str ''Name'')], [Some (str ''Pump'')]]) [])), Tick]
          (mount PULP2 Stock)"
  have f: "failed (Http False 500 (Unparsable []))"
    by code_simp
  have d: "data ?v = Some [[Some (str ''Name'')], [Some (str ''Pump'')]]" "error ?v = None"
    by code_simp+
  from background_failure_silent [of "Http False 500 (Unparsable [])" 0 ?v, THEN conjunct1] f
  have "step (Settle 0 False (Http False 500 (Unparsable []))) ?v = ?v" by simp
  with f d show ?thesis by simp
qed

lemma liveBelowCount_mount: "liveBelowCount (mount a dt)"
  by (simp add: liveBelowCount_def mount_def)

lemma liveBelowCount_step: "liveBelowCount v \<Longrightarrow> liveBelowCount (step ev v)"
proof (cases ev)
  case (Settle e i resp)
  assume "liveBelowCount v"
  with Settle show ?thesis
    by (auto simp: liveBelowCount_def step_Settle settle_filters split: option.splits)
qed (auto simp: liveBelowCount_def step_def Let_def selectedAreaEffect_def keyEffect_def
      split: option.splits if_splits)

lemma liveBelowCount_run: "liveBelowCount v \<Longrightarrow> liveBelowCount (run evs v)"
  by (induction evs arbitrary: v) (simp_all add: liveBelowCount_step)

lemma stale_step: "stale e v \<Longrightarrow> stale e (step ev v)"
proof (cases ev)
  case (Settle e' i resp)
  assume "stale e v"
  with Settle show ?thesis by (simp add: stale_def step_Settle settle_filters)
qed (auto simp: stale_def step_def Let_def selectedAreaEffect_def keyEffect_def
      split: option.splits if_splits)

lemma stale_run: "stale e v \<Longrightarrow> stale e (run evs v)"
  by (induction evs arbitrary: v) (simp_all add: stale_step)

lemma stale_after_cancel:
  "liveEffect v = Some e \<Longrightarrow> liveBelowCount v \<Longrightarrow> cancels ev v \<Longrightarrow> stale e (step ev v)"
  by (cases ev)
     (auto simp: cancels_def stale_def liveBelowCount_def step_def Let_def selectedAreaEffect_def
        keyEffect_def)

lemma stale_Settle: "stale e v \<Longrightarrow> step (Settle e i resp) v = v"
  by (simp add: stale_def step_Settle settle_unmounted)

text \<open>
  Claim C8. Take any state the component reaches after its mount, with effect run \<open>e\<close> live
  there, and let the unmount or a change of \<open>(area, dataType)\<close> cancel that run. Whatever
  happens next, a response or an error of a request of run \<open>e\<close> that arrives afterwards
  changes nothing: grid, loading flag, error and all the rest of the state stay as they are.
\<close>

theorem late_response_ignored:
  assumes "liveEffect (run evs0 (mount a0 dt0)) = Some e"
    and "cancels ev (run evs0 (mount a0 dt0))"
  shows "step (Settle e i resp) (run evs (step ev (run evs0 (mount a0 dt0))))
           = run evs (step ev (run evs0 (mount a0 dt0)))"
proof -
  have "liveBelowCount (run evs0 (mount a0 dt0))"
    by (rule liveBelowCount_run [OF liveBelowCount_mount])
  from stale_after_cancel [OF assms(1) this assms(2)]
  have "stale e (run evs (step ev (run evs0 (mount a0 dt0))))" by (rule stale_run)
  then show ?thesis by (rule stale_Settle)
qed

theorem late_response_ignored_witness:
  "data (step (Settle 0 True (Http True 200 (Parsed True (Some [[Some (str ''Old'')]]) [])))
      (run [Settle 1 True (Http True 200 (Parsed True (Some [[Some (str ''New'')]]) []))]
         (step (Props PULP2 Equipment) (run [Tick] (mount PULP2 Stock)))))
   = Some [[Some (str ''New'')]]"
proof -
  let ?u = "run [Tick] (mount PULP2 Stock)"
  let ?v = "run [Settle 1 True (Http True 200 (Parsed True (Some [[Some (str ''New'')]]) []))]
         (step (Props PULP2 Equipment) ?u)"
  have l: "liveEffect ?u = Some 0"
    by code_simp
  have c: "cancels (Props PULP2 Equipment) ?u"
    by code_simp
  have d: "data ?v = Some [[Some (str ''New'')]]"
    by code_simp
  from late_response_ignored [OF l c, of True
      "Http True 200 (Parsed True (Some [[Some (str ''Old'')]]) [])"
      "[Settle 1 True (Http True 200 (Parsed True (Some [[Some (str ''New'')]]) []))]"]
  show ?thesis using d by simp
qed

end
